theory Spec2Isabelle
  imports Main "HOL-Library.Word" "HOL-Library.Sublist"
begin

section \<open>The TCP forwarder of \<^verbatim>\<open>src/tcp_forwarder.cpp\<close>\<close>

text \<open>
  The program is a single-file Boost.Asio application. Its own code consists of completion
  handlers (the lambdas handed to \<^verbatim>\<open>async_accept\<close>, \<^verbatim>\<open>async_connect\<close>,
  \<^verbatim>\<open>async_wait\<close>, \<^verbatim>\<open>async_read_some\<close> and \<^verbatim>\<open>async_write\<close>) and of
  the constructors and destructors of \<^verbatim>\<open>Session\<close>, \<^verbatim>\<open>HealthChecker\<close> and
  \<^verbatim>\<open>TCPForwarder\<close>. The embedding keeps that shape:

  \<^item> every class is a record of its data members (the trailing underscore of the member
    names is dropped, an identifier cannot end with one here);
  \<^item> every handler is a function from the state before the completion to the state after it;
  \<^item> the reactor and the network are the environment: they choose which outstanding
    operation completes next, when, and with which error code and bytes. A completion that
    the program could not receive (no such operation outstanding) is \<open>None\<close>;
  \<^item> \<^verbatim>\<open>std::shared_ptr<Session>\<close> ownership is the list of outstanding operations of a
    session, each of which holds a copy of \<^verbatim>\<open>self\<close>; when a handler returns and no
    operation is outstanding the destructor runs;
  \<^item> handlers are atomic: two handlers of the worker pool are interleaved, never overlapped.
    Data races between handlers running at the same instant on two workers are outside
    the embedding;
  \<^item> calls into Boost.Asio and yaml-cpp that report failure by throwing are modelled where
    the constructor of \<^verbatim>\<open>TCPForwarder\<close> makes them (address parsing, binding); the
    throwing \<^verbatim>\<open>close()\<close> of a freshly accepted socket and allocation failure are
    taken to succeed;
  \<^item> what the program does to the outside is recorded in a trace, in the order of the
    source: every call of the logger with its level and text (what the \<^verbatim>\<open>Logger\<close>
    then filters or writes is not modelled), every asynchronous operation it issues and
    every \<^verbatim>\<open>close\<close>, each with the instant of the handler that made it;
  \<^item> the \<^verbatim>\<open>int\<close> members are integers. \<^verbatim>\<open>current_attempt_\<close> never exceeds
    \<^verbatim>\<open>retry_attempts_\<close> and the shared counter never exceeds the ceiling
    (\<open>counter_within_ceiling\<close> below), so no arithmetic of the program wraps; the one
    place where it could, the loop variable of a port range ending at \<^verbatim>\<open>INT_MAX\<close>,
    is an error of the model.
\<close>

subsection \<open>Error codes, log levels, decimal rendering\<close>

type_synonym time = int
  \<comment> \<open>seconds on the steady clock\<close>

datatype error_code =
  success | operation_aborted | eof | connection_refused | connection_reset | bad_descriptor

fun message :: "error_code \<Rightarrow> string" where
  "message success = ''Success''"
| "message operation_aborted = ''Operation canceled''"
| "message eof = ''End of file''"
| "message connection_refused = ''Connection refused''"
| "message connection_reset = ''Connection reset by peer''"
| "message bad_descriptor = ''Bad file descriptor''"

datatype log_level = TRACE | DEBUG | INFO | WARN | ERROR

fun nat_digits :: "nat \<Rightarrow> string" where
  "nat_digits n =
     (if n < 10 then [''0123456789'' ! n]
      else nat_digits (n div 10) @ [''0123456789'' ! (n mod 10)])"

definition to_string :: "int \<Rightarrow> string" where
  \<comment> \<open>\<^verbatim>\<open>std::to_string\<close> on an integer\<close>
  "to_string i = (if i < 0 then CHR ''-'' # nat_digits (nat (- i)) else nat_digits (nat i))"

subsection \<open>Sockets, endpoints, operations\<close>

record endpoint =
  address :: string
  port_num :: "16 word"

definition tcp_endpoint :: "string \<Rightarrow> int \<Rightarrow> endpoint" where
  \<comment> \<open>\<^verbatim>\<open>tcp::endpoint(addr, port)\<close>: the \<^verbatim>\<open>int\<close> argument converts to
      \<^verbatim>\<open>unsigned short\<close>, that is modulo \<open>2 ^ 16\<close>\<close>
  "tcp_endpoint addr p = \<lparr>address = addr, port_num = word_of_int p\<rparr>"

text \<open>
  A socket as the program sees it: whether it is open, how often its descriptor was really
  closed (a \<^verbatim>\<open>close\<close> of a socket that is not open does nothing), the bytes that
  completed reads have handed to the program and the bytes that completed writes have taken
  from it.
\<close>

record socket =
  is_open :: bool
  os_closes :: nat
  received :: "char list"
  sent :: "char list"

definition fresh_socket :: socket where
  \<comment> \<open>\<^verbatim>\<open>tcp::socket(io_context)\<close>: not open\<close>
  "fresh_socket = \<lparr>is_open = False, os_closes = 0, received = [], sent = []\<rparr>"

definition accepted_socket :: socket where
  \<comment> \<open>the socket \<^verbatim>\<open>async_accept\<close> hands to its handler: open\<close>
  "accepted_socket = \<lparr>is_open = True, os_closes = 0, received = [], sent = []\<rparr>"

definition close :: "socket \<Rightarrow> socket" where
  "close k = (if is_open k then k\<lparr>is_open := False, os_closes := os_closes k + 1\<rparr> else k)"

definition opened :: "socket \<Rightarrow> socket" where
  \<comment> \<open>\<^verbatim>\<open>async_connect\<close> opens a socket that is not open\<close>
  "opened k = k\<lparr>is_open := True\<rparr>"

datatype direction = In_to_out | Out_to_in
  \<comment> \<open>\<^verbatim>\<open>forward_data(in_socket_, out_socket_, data_in_)\<close> and
      \<^verbatim>\<open>forward_data(out_socket_, in_socket_, data_out_)\<close>\<close>

datatype sock = In_socket | Out_socket

datatype action =
    Log log_level string
  | Set_no_delay sock bool
  | Async_connect endpoint
  | Expires_after int
  | Async_wait
  | Async_read_some direction
  | Async_write direction "char list"
  | Close sock
  | Async_accept nat

datatype operation = Connect_op | Wait_op | Read_op direction | Write_op direction "char list"
  \<comment> \<open>an outstanding asynchronous operation; its handler holds \<^verbatim>\<open>self\<close>. A write
      carries the bytes of \<^verbatim>\<open>boost::asio::buffer(buffer, length)\<close> at the time it is issued\<close>

datatype completion =
    Connected error_code error_code
      \<comment> \<open>result of the connect; result of \<^verbatim>\<open>set_option\<close> on the outgoing socket\<close>
  | Timer_fired error_code
  | Read_done direction error_code "char list"
  | Write_done direction error_code nat

subsection \<open>Session\<close>

record session =
  in_socket :: socket
  out_socket :: socket
  target_endpoint :: endpoint
  buffer_size :: nat
  tcp_no_delay :: bool
  retry_attempts :: int
  retry_delay :: int
  current_attempt :: int
  timer :: time
  data_in :: "char list"
  data_out :: "char list"
  pending :: "operation list"
  destroyed :: bool
  trace :: "(time \<times> action) list"

definition emit :: "time \<Rightarrow> action \<Rightarrow> session \<Rightarrow> session" where
  "emit now a s = s\<lparr>trace := trace s @ [(now, a)]\<rparr>"

definition log :: "time \<Rightarrow> log_level \<Rightarrow> string \<Rightarrow> session \<Rightarrow> session" where
  "log now lv m s = emit now (Log lv m) s"

definition issue :: "operation \<Rightarrow> session \<Rightarrow> session" where
  "issue op s = s\<lparr>pending := pending s @ [op]\<rparr>"

definition Session ::
  "time \<Rightarrow> socket \<Rightarrow> endpoint \<Rightarrow> nat \<Rightarrow> bool \<Rightarrow> int \<Rightarrow> int \<Rightarrow> error_code \<Rightarrow> int \<Rightarrow> session \<times> int" where
  \<comment> \<open>the constructor; \<open>ec\<close> is what \<^verbatim>\<open>set_option\<close> on the incoming socket reports, the
      last argument and the second result are \<^verbatim>\<open>active_connections_\<close>\<close>
  "Session now in_sock target bs nd ra rd ec active =
     (let active' = active + 1;
          s0 = \<lparr>in_socket = in_sock, out_socket = fresh_socket, target_endpoint = target,
                buffer_size = bs, tcp_no_delay = nd, retry_attempts = ra, retry_delay = rd,
                current_attempt = 0, timer = 0,
                data_in = replicate bs (CHR 0x00), data_out = replicate bs (CHR 0x00),
                pending = [], destroyed = False, trace = []\<rparr>;
          s1 = log now DEBUG (''Session created. Active connections: '' @ to_string active') s0;
          s2 = emit now (Set_no_delay In_socket nd) s1
      in (if ec \<noteq> success
          then log now ERROR (''seting up TCP nodelay on incoming socket failed: '' @ message ec) s2
          else log now INFO ''TCP nodelay has been set on incoming socket'' s2,
          active'))"

definition Session_dtor :: "time \<Rightarrow> session \<times> int \<Rightarrow> session \<times> int" where
  \<comment> \<open>\<^verbatim>\<open>~Session\<close>, then the destructors of the members: a socket that is still open is closed\<close>
  "Session_dtor now sa =
     (let active' = snd sa - 1;
          s1 = log now DEBUG (''Session destroyed. Active connections: '' @ to_string active') (fst sa)
      in (s1\<lparr>in_socket := close (in_socket s1), out_socket := close (out_socket s1),
              destroyed := True\<rparr>, active'))"

definition release :: "time \<Rightarrow> session \<times> int \<Rightarrow> session \<times> int" where
  \<comment> \<open>a \<^verbatim>\<open>shared_ptr\<close> to the session goes away; it was the last one when no operation
      is outstanding\<close>
  "release now sa = (if pending (fst sa) = [] then Session_dtor now sa else sa)"

definition attempt_connection :: "time \<Rightarrow> session \<Rightarrow> session" where
  "attempt_connection now s =
     (if current_attempt s \<ge> retry_attempts s
      then log now ERROR ''max retry attempts has been reached. Connection failed.'' s
      else
        let s1 = log now TRACE ''Attempting to connect to target IP...'' s;
            s2 = emit now (Async_connect (target_endpoint s1)) s1
        in issue Connect_op (s2\<lparr>out_socket := opened (out_socket s2)\<rparr>))"

definition start :: "time \<Rightarrow> session \<Rightarrow> session" where
  "start now s = attempt_connection now (log now TRACE ''Starting session..'' s)"

definition forward_data :: "time \<Rightarrow> direction \<Rightarrow> session \<Rightarrow> session" where
  "forward_data now d s = issue (Read_op d) (emit now (Async_read_some d) s)"

definition plz_forward :: "time \<Rightarrow> session \<Rightarrow> session" where
  "plz_forward now s =
     forward_data now Out_to_in
       (forward_data now In_to_out (log now TRACE ''Starting data forwarding...'' s))"

definition close_sockets :: "time \<Rightarrow> session \<Rightarrow> session" where
  "close_sockets now s =
     (let s1 = emit now (Close In_socket) (s\<lparr>in_socket := close (in_socket s)\<rparr>);
          s2 = emit now (Close Out_socket) (s1\<lparr>out_socket := close (out_socket s1)\<rparr>)
      in log now INFO ''Sockets closed'' s2)"

definition on_connect :: "time \<Rightarrow> error_code \<Rightarrow> error_code \<Rightarrow> session \<Rightarrow> session" where
  \<comment> \<open>the handler of \<^verbatim>\<open>async_connect\<close> in \<^verbatim>\<open>attempt_connection\<close>\<close>
  "on_connect now ec nd_ec s =
     (if ec = success then
        let s1 = log now INFO ''Connected to target endpoint successfully.'' s;
            s2 = emit now (Set_no_delay Out_socket (tcp_no_delay s1)) s1;
            s3 = (if nd_ec \<noteq> success
                  then log now ERROR (''setting up TCP nodelay on outgoing socket failed: '' @ message nd_ec) s2
                  else log now INFO ''TCP nodelay has been set on outgoing socket'' s2)
        in plz_forward now s3
      else
        let s1 = log now WARN (''Connection attempt '' @ to_string (current_attempt s + 1)
                                 @ '' failed: '' @ message ec) s;
            s2 = s1\<lparr>current_attempt := current_attempt s1 + 1\<rparr>;
            s3 = emit now (Expires_after (retry_delay s2)) (s2\<lparr>timer := now + retry_delay s2\<rparr>)
        in issue Wait_op (emit now Async_wait s3))"

definition on_wait :: "time \<Rightarrow> error_code \<Rightarrow> session \<Rightarrow> session" where
  \<comment> \<open>the handler of \<^verbatim>\<open>timer_.async_wait\<close>: the error code is not looked at\<close>
  "on_wait now ec s = attempt_connection now s"

definition buffer :: "direction \<Rightarrow> session \<Rightarrow> char list" where
  "buffer d s = (case d of In_to_out \<Rightarrow> data_in s | Out_to_in \<Rightarrow> data_out s)"

definition on_read :: "time \<Rightarrow> direction \<Rightarrow> error_code \<Rightarrow> nat \<Rightarrow> session \<Rightarrow> session" where
  \<comment> \<open>the handler of \<^verbatim>\<open>async_read_some\<close> in \<^verbatim>\<open>forward_data\<close>\<close>
  "on_read now d ec len s =
     (if ec = success then
        let s1 = log now DEBUG (''Data read from the sourcePoint. Length: '' @ to_string (int len)) s;
            bytes = take len (buffer d s1)
        in issue (Write_op d bytes) (emit now (Async_write d bytes) s1)
      else if ec \<noteq> operation_aborted then
        close_sockets now (log now ERROR (''Read error: '' @ message ec) s)
      else s)"

definition on_write :: "time \<Rightarrow> direction \<Rightarrow> error_code \<Rightarrow> session \<Rightarrow> session" where
  \<comment> \<open>the handler of \<^verbatim>\<open>async_write\<close> in \<^verbatim>\<open>forward_data\<close>\<close>
  "on_write now d write_ec s =
     (if write_ec = success then
        forward_data now d (log now TRACE ''Data forwarded successfully.'' s)
      else if write_ec \<noteq> operation_aborted then
        close_sockets now (log now ERROR (''Write error: '' @ message write_ec) s)
      else s)"

subsection \<open>What the environment does to a session\<close>

definition read_into :: "direction \<Rightarrow> char list \<Rightarrow> session \<Rightarrow> session" where
  \<comment> \<open>a read of \<open>d\<close> completes with these bytes: they leave the source socket and fill the
      front of the buffer of \<open>d\<close>\<close>
  "read_into d bytes s =
     (case d of
        In_to_out \<Rightarrow> s\<lparr>in_socket := (in_socket s)\<lparr>received := received (in_socket s) @ bytes\<rparr>,
                       data_in := bytes @ drop (length bytes) (data_in s)\<rparr>
      | Out_to_in \<Rightarrow> s\<lparr>out_socket := (out_socket s)\<lparr>received := received (out_socket s) @ bytes\<rparr>,
                       data_out := bytes @ drop (length bytes) (data_out s)\<rparr>)"

definition written_to :: "direction \<Rightarrow> char list \<Rightarrow> session \<Rightarrow> session" where
  \<comment> \<open>a write of \<open>d\<close> has handed these bytes to the destination socket\<close>
  "written_to d bytes s =
     (case d of
        In_to_out \<Rightarrow> s\<lparr>out_socket := (out_socket s)\<lparr>sent := sent (out_socket s) @ bytes\<rparr>\<rparr>
      | Out_to_in \<Rightarrow> s\<lparr>in_socket := (in_socket s)\<lparr>sent := sent (in_socket s) @ bytes\<rparr>\<rparr>)"

fun write_of :: "direction \<Rightarrow> operation list \<Rightarrow> char list option" where
  "write_of d [] = None"
| "write_of d (Write_op d' bytes # ops) = (if d' = d then Some bytes else write_of d ops)"
| "write_of d (_ # ops) = write_of d ops"

definition completed :: "operation \<Rightarrow> session \<Rightarrow> session" where
  "completed op s = s\<lparr>pending := remove1 op (pending s)\<rparr>"

text \<open>
  A completion can be delivered only for an operation that is outstanding, and only as the
  library completes it:
  \<^item> a wait that was not cancelled completes no earlier than the expiry of the timer;
  \<^item> \<^verbatim>\<open>async_read_some\<close> on a stream socket transfers at most as many bytes as the
    buffer holds, none when it reports an error, and at least one when it reports no error
    and the buffer is not empty: the end of the stream is the error \<^verbatim>\<open>eof\<close> with
    zero bytes. Only a read into an empty buffer completes with no error and zero bytes;
  \<^item> \<^verbatim>\<open>async_write\<close> transfers all the bytes of its buffer when it reports no error,
    and some front part of them otherwise.
\<close>

fun handler :: "time \<Rightarrow> completion \<Rightarrow> session \<Rightarrow> session option" where
  \<comment> \<open>the reactor completes an outstanding operation and runs its handler\<close>
  "handler now (Connected ec nd_ec) s =
     (if Connect_op \<in> set (pending s)
      then Some (on_connect now ec nd_ec (completed Connect_op s))
      else None)"
| "handler now (Timer_fired ec) s =
     (if Wait_op \<in> set (pending s) \<and> (ec = success \<longrightarrow> timer s \<le> now)
      then Some (on_wait now ec (completed Wait_op s))
      else None)"
| "handler now (Read_done d ec bytes) s =
     (if Read_op d \<in> set (pending s) \<and> length bytes \<le> length (buffer d s)
         \<and> (ec \<noteq> success \<longrightarrow> bytes = [])
         \<and> (ec = success \<longrightarrow> bytes \<noteq> [] \<or> buffer d s = [])
      then Some (on_read now d ec (length bytes) (read_into d bytes (completed (Read_op d) s)))
      else None)"
| "handler now (Write_done d ec n) s =
     (case write_of d (pending s) of
        None \<Rightarrow> None
      | Some bytes \<Rightarrow>
          if n \<le> length bytes \<and> (ec = success \<longrightarrow> n = length bytes)
          then Some (on_write now d ec (written_to d (take n bytes) (completed (Write_op d bytes) s)))
          else None)"

definition deliver :: "time \<Rightarrow> completion \<Rightarrow> session \<times> int \<Rightarrow> (session \<times> int) option" where
  \<comment> \<open>the handler runs, then its copy of \<^verbatim>\<open>self\<close> goes away\<close>
  "deliver now c sa =
     (case handler now c (fst sa) of
        None \<Rightarrow> None
      | Some s' \<Rightarrow> Some (release now (s', snd sa)))"

fun run :: "time \<Rightarrow> session \<times> int \<Rightarrow> (time \<times> completion) list \<Rightarrow> (time \<times> session \<times> int) option" where
  "run now sa [] = Some (now, sa)"
| "run now sa ((t, c) # evs) =
     (if t < now then None
      else case deliver t c sa of None \<Rightarrow> None | Some sa' \<Rightarrow> run t sa' evs)"

definition spawn ::
  "time \<Rightarrow> endpoint \<Rightarrow> nat \<Rightarrow> bool \<Rightarrow> int \<Rightarrow> int \<Rightarrow> error_code \<Rightarrow> int \<Rightarrow> session \<times> int" where
  \<comment> \<open>\<^verbatim>\<open>std::make_shared<Session>(...)->start();\<close> and the end of the temporary\<close>
  "spawn now target bs nd ra rd ec active =
     (let sa = Session now accepted_socket target bs nd ra rd ec active
      in release now (start now (fst sa), snd sa))"

subsection \<open>Configuration and listeners\<close>

text \<open>
  The configuration is the YAML document after \<^verbatim>\<open>validate_and_set_defaults\<close>, with
  the types \<^verbatim>\<open>as<T>()\<close> reads it at. A forwarder entry with a \<^verbatim>\<open>port_range\<close> has
  \<open>port_range = Some (start, end)\<close>; its \<open>listen_port\<close> and \<open>target_port\<close> are then never
  read by the program.
\<close>

record forwarder_node =
  listen_address :: string
  target_address :: string
  port_range :: "(int \<times> int) option"
  listen_port :: int
  target_port :: int

record config =
  cfg_buffer_size :: nat
  cfg_tcp_no_delay :: bool
  cfg_retry_attempts :: int
  cfg_retry_delay :: int
  cfg_max_connections :: int
  forwarders :: "forwarder_node list"
  health_check_enabled :: bool
  health_check_interval :: int

datatype startup_error = Bad_address string | Bind_failed endpoint | Signed_overflow

record environment =
  parses :: "string \<Rightarrow> bool"
  bindable :: "endpoint \<Rightarrow> bool"

definition make_address :: "environment \<Rightarrow> string \<Rightarrow> startup_error + string" where
  \<comment> \<open>\<^verbatim>\<open>boost::asio::ip::make_address\<close> throws on text that is no address\<close>
  "make_address env a = (if parses env a then Inr a else Inl (Bad_address a))"

record listener =
  acceptor :: endpoint
  l_target_endpoint :: endpoint
  l_buffer_size :: nat
  l_tcp_no_delay :: bool
  l_retry_attempts :: int
  l_retry_delay :: int
  l_max_connections :: int
  accept_outstanding :: bool

record forwarder =
  active_connections :: int
  listeners :: "listener list"
  sessions :: "session list"
  ftrace :: "(time \<times> action) list"

text \<open>
  \<open>sessions\<close> holds every \<^verbatim>\<open>Session\<close> object that was ever constructed, in the order
  of construction; a destroyed one stays in the list with \<open>destroyed\<close> set. The listener
  record is the acceptor together with what the accept handler captures.
\<close>

definition femit :: "time \<Rightarrow> action \<Rightarrow> forwarder \<Rightarrow> forwarder" where
  "femit now a fw = fw\<lparr>ftrace := ftrace fw @ [(now, a)]\<rparr>"

definition flog :: "time \<Rightarrow> log_level \<Rightarrow> string \<Rightarrow> forwarder \<Rightarrow> forwarder" where
  "flog now lv m fw = femit now (Log lv m) fw"

definition plz_accept :: "time \<Rightarrow> nat \<Rightarrow> forwarder \<Rightarrow> forwarder" where
  \<comment> \<open>\<^verbatim>\<open>acceptor->async_accept(handler)\<close> on listener \<open>l\<close>\<close>
  "plz_accept now l fw =
     femit now (Async_accept l)
       (fw\<lparr>listeners := (listeners fw)[l := (listeners fw ! l)\<lparr>accept_outstanding := True\<rparr>]\<rparr>)"

text \<open>
  An address is kept as the text of the configuration; where the source prints
  \<^verbatim>\<open>listen_endpoint.address().to_string()\<close> the trace has that text and not the
  canonical form of the address. Whether an endpoint can be bound is the environment's
  answer for that endpoint alone.
\<close>

definition start_con ::
  "environment \<Rightarrow> time \<Rightarrow> endpoint \<Rightarrow> endpoint \<Rightarrow> nat \<Rightarrow> bool \<Rightarrow> int \<Rightarrow> int \<Rightarrow> int \<Rightarrow> forwarder
     \<Rightarrow> startup_error + forwarder" where
  "start_con env now listen_endpoint target bs nd ra rd mc fw =
     (if \<not> bindable env listen_endpoint then Inl (Bind_failed listen_endpoint)
      else
        let l = length (listeners fw);
            fw1 = fw\<lparr>listeners := listeners fw @
                    [\<lparr>acceptor = listen_endpoint, l_target_endpoint = target, l_buffer_size = bs,
                      l_tcp_no_delay = nd, l_retry_attempts = ra, l_retry_delay = rd,
                      l_max_connections = mc, accept_outstanding = False\<rparr>]\<rparr>;
            fw2 = flog now INFO (''Listening on '' @ address listen_endpoint @ '':''
                                   @ to_string (uint (port_num listen_endpoint))) fw1
        in Inr (plz_accept now l fw2))"

definition INT_MAX :: int where
  "INT_MAX = 2147483647"

definition start_pair ::
  "environment \<Rightarrow> time \<Rightarrow> config \<Rightarrow> string \<Rightarrow> int \<Rightarrow> string \<Rightarrow> int \<Rightarrow> forwarder
     \<Rightarrow> startup_error + forwarder" where
  \<comment> \<open>the two endpoint declarations and the call of \<^verbatim>\<open>start_con\<close>, as both branches of
      the constructor have them\<close>
  "start_pair env now cfg la lp ta tp fw =
     (case make_address env la of
        Inl e \<Rightarrow> Inl e
      | Inr laddr \<Rightarrow>
         (case make_address env ta of
            Inl e \<Rightarrow> Inl e
          | Inr taddr \<Rightarrow>
              start_con env now (tcp_endpoint laddr lp) (tcp_endpoint taddr tp)
                (cfg_buffer_size cfg) (cfg_tcp_no_delay cfg) (cfg_retry_attempts cfg)
                (cfg_retry_delay cfg) (cfg_max_connections cfg) fw))"

function range_loop ::
  "environment \<Rightarrow> time \<Rightarrow> config \<Rightarrow> string \<Rightarrow> string \<Rightarrow> int \<Rightarrow> int \<Rightarrow> forwarder
     \<Rightarrow> startup_error + forwarder" where
  \<comment> \<open>\<^verbatim>\<open>for (int port = start_port; port <= end_port; ++port)\<close>: both endpoints are built
      from \<^verbatim>\<open>port\<close>. Incrementing \<^verbatim>\<open>INT_MAX\<close> is undefined and reported as an error\<close>
  "range_loop env now cfg la ta port end_port fw =
     (if port \<le> end_port then
        (case start_pair env now cfg la port ta port fw of
           Inl e \<Rightarrow> Inl e
         | Inr fw' \<Rightarrow>
             if port = INT_MAX then Inl Signed_overflow
             else range_loop env now cfg la ta (port + 1) end_port fw')
      else Inr fw)"
  by pat_completeness auto
termination
  by (relation "measure (\<lambda>(env, now, cfg, la, ta, port, end_port, fw). nat (end_port + 1 - port))") auto

definition add_forwarder ::
  "environment \<Rightarrow> time \<Rightarrow> config \<Rightarrow> forwarder_node \<Rightarrow> forwarder \<Rightarrow> startup_error + forwarder" where
  \<comment> \<open>the body of the loop over \<^verbatim>\<open>config["forwarders"]\<close>\<close>
  "add_forwarder env now cfg f fw =
     (case port_range f of
        Some (start_port, end_port) \<Rightarrow>
          range_loop env now cfg (listen_address f) (target_address f) start_port end_port fw
      | None \<Rightarrow>
          start_pair env now cfg (listen_address f) (listen_port f)
            (target_address f) (target_port f) fw)"

fun add_forwarders ::
  "environment \<Rightarrow> time \<Rightarrow> config \<Rightarrow> forwarder_node list \<Rightarrow> forwarder \<Rightarrow> startup_error + forwarder" where
  "add_forwarders env now cfg [] fw = Inr fw"
| "add_forwarders env now cfg (f # fs) fw =
     (case add_forwarder env now cfg f fw of
        Inl e \<Rightarrow> Inl e
      | Inr fw' \<Rightarrow> add_forwarders env now cfg fs fw')"

definition TCPForwarder :: "environment \<Rightarrow> time \<Rightarrow> config \<Rightarrow> startup_error + forwarder" where
  "TCPForwarder env now cfg =
     add_forwarders env now cfg (forwarders cfg)
       (flog now TRACE ''Trying to initiate TCP Forwarder...''
          \<lparr>active_connections = 0, listeners = [], sessions = [], ftrace = []\<rparr>)"

definition routes :: "forwarder \<Rightarrow> (endpoint \<times> endpoint) list" where
  \<comment> \<open>listen endpoint and target endpoint of every listener\<close>
  "routes fw = map (\<lambda>L. (acceptor L, l_target_endpoint L)) (listeners fw)"

subsection \<open>The accept handler and the reactor\<close>

definition on_accept :: "time \<Rightarrow> nat \<Rightarrow> error_code \<Rightarrow> error_code \<Rightarrow> forwarder \<Rightarrow> forwarder" where
  \<comment> \<open>the handler of \<^verbatim>\<open>async_accept\<close> in \<^verbatim>\<open>plz_accept\<close>; \<open>nd_ec\<close> is what the
      constructor of the session gets from \<^verbatim>\<open>set_option\<close>\<close>
  "on_accept now l ec nd_ec fw =
     (let L = listeners fw ! l;
          fw1 =
            (if ec = success then
               (if active_connections fw \<ge> l_max_connections L then
                  femit now (Close In_socket)
                    (flog now WARN ''max connections reached. Rejecting new connection.'' fw)
                else
                  let fw' = flog now INFO ''Accepted new connection'' fw;
                      sa = spawn now (l_target_endpoint L) (l_buffer_size L) (l_tcp_no_delay L)
                             (l_retry_attempts L) (l_retry_delay L) nd_ec (active_connections fw')
                  in fw'\<lparr>sessions := sessions fw' @ [fst sa], active_connections := snd sa\<rparr>)
             else flog now ERROR (''Accept error: '' @ message ec) fw)
      in plz_accept now l fw1)"

definition accept_completed :: "nat \<Rightarrow> forwarder \<Rightarrow> forwarder" where
  "accept_completed l fw =
     fw\<lparr>listeners := (listeners fw)[l := (listeners fw ! l)\<lparr>accept_outstanding := False\<rparr>]\<rparr>"

datatype event = Accepted nat error_code error_code | Completed nat completion
  \<comment> \<open>an accept of listener \<open>l\<close> completes; an operation of session \<open>i\<close> completes\<close>

fun step :: "time \<Rightarrow> event \<Rightarrow> forwarder \<Rightarrow> forwarder option" where
  "step now (Accepted l ec nd_ec) fw =
     (if l < length (listeners fw) \<and> accept_outstanding (listeners fw ! l)
      then Some (on_accept now l ec nd_ec (accept_completed l fw))
      else None)"
| "step now (Completed i c) fw =
     (if i < length (sessions fw) then
        (case deliver now c (sessions fw ! i, active_connections fw) of
           None \<Rightarrow> None
         | Some sa \<Rightarrow> Some (fw\<lparr>sessions := (sessions fw)[i := fst sa], active_connections := snd sa\<rparr>))
      else None)"

fun exec :: "time \<Rightarrow> forwarder \<Rightarrow> (time \<times> event) list \<Rightarrow> (time \<times> forwarder) option" where
  "exec now fw [] = Some (now, fw)"
| "exec now fw ((t, e) # evs) =
     (if t < now then None
      else case step t e fw of None \<Rightarrow> None | Some fw' \<Rightarrow> exec t fw' evs)"

subsection \<open>HealthChecker and the part of main that owns it\<close>

datatype wait_state = No_wait | Waiting | Cancelled
  \<comment> \<open>the handler given to \<^verbatim>\<open>timer_.async_wait\<close>: none, waiting for the expiry, or
      cancelled and due with \<^verbatim>\<open>operation_aborted\<close>\<close>

record health_checker =
  hc_timer :: time
  hc_wait :: wait_state
  interval :: int
  hc_trace :: "(time \<times> action) list"

definition HealthChecker :: "int \<Rightarrow> health_checker" where
  "HealthChecker i = \<lparr>hc_timer = 0, hc_wait = No_wait, interval = i, hc_trace = []\<rparr>"

definition hc_log :: "time \<Rightarrow> log_level \<Rightarrow> string \<Rightarrow> health_checker \<Rightarrow> health_checker" where
  "hc_log now lv m h = h\<lparr>hc_trace := hc_trace h @ [(now, Log lv m)]\<rparr>"

definition schedule_check :: "time \<Rightarrow> health_checker \<Rightarrow> health_checker" where
  "schedule_check now h =
     (let h1 = h\<lparr>hc_timer := now + interval h,
                 hc_trace := hc_trace h @ [(now, Expires_after (interval h))]\<rparr>
      in h1\<lparr>hc_wait := Waiting, hc_trace := hc_trace h1 @ [(now, Async_wait)]\<rparr>)"

definition hc_start :: "time \<Rightarrow> health_checker \<Rightarrow> health_checker" where
  "hc_start now h = schedule_check now (hc_log now TRACE ''Starting health checks...'' h)"

definition hc_on_wait :: "time \<Rightarrow> error_code \<Rightarrow> health_checker \<Rightarrow> health_checker" where
  \<comment> \<open>the handler of \<^verbatim>\<open>timer_.async_wait\<close> in \<^verbatim>\<open>schedule_check\<close>\<close>
  "hc_on_wait now ec h =
     (if ec = success
      then schedule_check now (hc_log now INFO ''Health check: System is operational'' h)
      else h)"

definition HealthChecker_dtor :: "health_checker \<Rightarrow> health_checker" where
  \<comment> \<open>the implicit destructor destroys \<^verbatim>\<open>timer_\<close>, and the destructor of a
      \<^verbatim>\<open>steady_timer\<close> cancels its outstanding wait\<close>
  "HealthChecker_dtor h = (if hc_wait h = Waiting then h\<lparr>hc_wait := Cancelled\<rparr> else h)"

definition hc_fire :: "time \<Rightarrow> health_checker \<Rightarrow> health_checker option" where
  \<comment> \<open>the reactor runs the handler of the wait: with no error once the expiry is reached,
      with \<^verbatim>\<open>operation_aborted\<close> if the wait was cancelled\<close>
  "hc_fire now h =
     (case hc_wait h of
        No_wait \<Rightarrow> None
      | Waiting \<Rightarrow>
          if hc_timer h \<le> now then Some (hc_on_wait now success (h\<lparr>hc_wait := No_wait\<rparr>)) else None
      | Cancelled \<Rightarrow> Some (hc_on_wait now operation_aborted (h\<lparr>hc_wait := No_wait\<rparr>)))"

fun hc_run :: "health_checker \<Rightarrow> time list \<Rightarrow> health_checker" where
  \<comment> \<open>the reactor at these instants, one after the other; nothing happens at an instant
      where no handler is due\<close>
  "hc_run h [] = h"
| "hc_run h (t # ts) = (case hc_fire t h of None \<Rightarrow> hc_run h ts | Some h' \<Rightarrow> hc_run h' ts)"

definition main_health_check :: "time \<Rightarrow> config \<Rightarrow> health_checker option" where
  \<comment> \<open>\<^verbatim>\<open>if (health_check_enabled) { HealthChecker health_checker(...); health_checker.start(); }\<close>:
      the object is local to the block and destroyed at its closing brace, before
      \<^verbatim>\<open>io_context.run()\<close> is ever called\<close>
  "main_health_check now cfg =
     (if health_check_enabled cfg
      then Some (HealthChecker_dtor (hc_start now (HealthChecker (health_check_interval cfg))))
      else None)"

definition heartbeats :: "health_checker \<Rightarrow> nat" where
  "heartbeats h =
     length (filter (\<lambda>e. snd e = Log INFO ''Health check: System is operational'') (hc_trace h))"

subsection \<open>Vocabulary of the properties\<close>

definition new_listener :: "config \<Rightarrow> endpoint \<Rightarrow> endpoint \<Rightarrow> listener" where
  \<comment> \<open>the listener \<^verbatim>\<open>start_con\<close> leaves behind for these two endpoints\<close>
  "new_listener cfg l t =
     \<lparr>acceptor = l, l_target_endpoint = t, l_buffer_size = cfg_buffer_size cfg,
      l_tcp_no_delay = cfg_tcp_no_delay cfg, l_retry_attempts = cfg_retry_attempts cfg,
      l_retry_delay = cfg_retry_delay cfg, l_max_connections = cfg_max_connections cfg,
      accept_outstanding = True\<rparr>"

definition port_pair :: "listener \<Rightarrow> int \<times> int" where
  "port_pair L = (uint (port_num (acceptor L)), uint (port_num (l_target_endpoint L)))"

definition port_pairs :: "startup_error + forwarder \<Rightarrow> (int \<times> int) list option" where
  \<comment> \<open>listen port and target port of every listener, when start-up succeeded\<close>
  "port_pairs r = (case r of Inl e \<Rightarrow> None | Inr fw \<Rightarrow> Some (map port_pair (listeners fw)))"

definition no_forwarder :: forwarder where
  "no_forwarder = \<lparr>active_connections = 0, listeners = [], sessions = [], ftrace = []\<rparr>"

fun is_connect :: "action \<Rightarrow> bool" where
  "is_connect (Async_connect e) = True"
| "is_connect a = False"

definition connect_times :: "session \<Rightarrow> time list" where
  \<comment> \<open>the instants at which the session issued a connect, in order\<close>
  "connect_times s = map fst (filter (\<lambda>e. is_connect (snd e)) (trace s))"

fun separated :: "int \<Rightarrow> time list \<Rightarrow> bool" where
  "separated d (t1 # t2 # ts) = (t1 + d \<le> t2 \<and> separated d (t2 # ts))"
| "separated d ts = True"

fun is_copy :: "action \<Rightarrow> bool" where
  "is_copy (Async_read_some d) = True"
| "is_copy (Async_write d bytes) = True"
| "is_copy a = False"

definition entered_forwarding :: "session \<Rightarrow> bool" where
  \<comment> \<open>\<^verbatim>\<open>plz_forward\<close> has run: a read or a write was issued\<close>
  "entered_forwarding s = list_ex (\<lambda>e. is_copy (snd e)) (trace s)"

fun refused :: "completion \<Rightarrow> bool" where
  "refused (Connected ec nd_ec) = (ec \<noteq> success)"
| "refused (Timer_fired ec) = (ec = success)"
| "refused c = True"

definition target_unreachable :: "(time \<times> completion) list \<Rightarrow> bool" where
  \<comment> \<open>every connect fails, and every wait ends by expiry (the session never cancels its timer)\<close>
  "target_unreachable evs = list_all (\<lambda>e. refused (snd e)) evs"

definition source :: "direction \<Rightarrow> session \<Rightarrow> socket" where
  "source d s = (case d of In_to_out \<Rightarrow> in_socket s | Out_to_in \<Rightarrow> out_socket s)"

definition destination :: "direction \<Rightarrow> session \<Rightarrow> socket" where
  "destination d s = (case d of In_to_out \<Rightarrow> out_socket s | Out_to_in \<Rightarrow> in_socket s)"

fun op_direction :: "operation \<Rightarrow> direction option" where
  "op_direction (Read_op d) = Some d"
| "op_direction (Write_op d bytes) = Some d"
| "op_direction op = None"

definition ops_of :: "direction \<Rightarrow> session \<Rightarrow> operation list" where
  \<comment> \<open>the outstanding operations of the copy loop of \<open>d\<close>\<close>
  "ops_of d s = filter (\<lambda>op. op_direction op = Some d) (pending s)"

definition relayed :: "direction \<Rightarrow> session \<Rightarrow> bool" where
  "relayed d s =
     (case ops_of d s of
        [] \<Rightarrow> prefix (sent (destination d s)) (received (source d s))
      | [Read_op d'] \<Rightarrow> sent (destination d s) = received (source d s)
      | [Write_op d' bytes] \<Rightarrow> received (source d s) = sent (destination d s) @ bytes
      | ops \<Rightarrow> False)"


definition rejections :: "forwarder \<Rightarrow> nat" where
  \<comment> \<open>how often the accept handler closed the socket it was handed\<close>
  "rejections fw = length (filter (\<lambda>e. snd e = Close In_socket) (ftrace fw))"

fun is_accept :: "event \<Rightarrow> bool" where
  "is_accept (Accepted l ec nd_ec) = (ec = success)"
| "is_accept e = False"

definition accepts :: "(time \<times> event) list \<Rightarrow> nat" where
  \<comment> \<open>how many connections the listeners accepted\<close>
  "accepts evs = length (filter (\<lambda>e. is_accept (snd e)) evs)"


definition started :: "config \<Rightarrow> forwarder \<Rightarrow> bool" where
  \<comment> \<open>a forwarder as its constructor leaves it\<close>
  "started cfg fw =
     (sessions fw = [] \<and> active_connections fw = 0 \<and> rejections fw = 0
      \<and> list_all (\<lambda>L. accept_outstanding L \<and> l_max_connections L = cfg_max_connections cfg)
           (listeners fw))"

definition accounted :: "forwarder \<Rightarrow> bool" where
  \<comment> \<open>the counter is the number of sessions constructed minus the number destroyed, and a
      session is destroyed exactly when it has no operation outstanding\<close>
  "accounted fw =
     (active_connections fw
        = int (length (sessions fw)) - int (length (filter destroyed (sessions fw)))
      \<and> list_all (\<lambda>s. destroyed s \<longleftrightarrow> pending s = []) (sessions fw))"

definition listening :: "config \<Rightarrow> forwarder \<Rightarrow> bool" where
  \<comment> \<open>every listener has an accept outstanding and the configured ceiling\<close>
  "listening cfg fw =
     list_all (\<lambda>L. accept_outstanding L \<and> l_max_connections L = cfg_max_connections cfg)
       (listeners fw)"

definition shut :: "forwarder \<Rightarrow> bool" where
  \<comment> \<open>no session was ever constructed and no listener admits one\<close>
  "shut fw =
     (sessions fw = [] \<and> active_connections fw = 0
      \<and> list_all (\<lambda>L. accept_outstanding L \<and> l_max_connections L \<le> 0) (listeners fw))"

definition phase_inv :: "session \<Rightarrow> bool" where
  \<comment> \<open>a session is either connecting (at most one connect or one wait outstanding) or
      forwarding (no connect and no wait outstanding)\<close>
  "phase_inv s =
     (if entered_forwarding s
      then Connect_op \<notin> set (pending s) \<and> Wait_op \<notin> set (pending s)
      else pending s = [] \<or> pending s = [Connect_op] \<or> pending s = [Wait_op])"

definition relay_inv :: "session \<Rightarrow> bool" where
  \<comment> \<open>before forwarding nothing was relayed; in forwarding both directions are relayed\<close>
  "relay_inv s =
     (if entered_forwarding s then relayed In_to_out s \<and> relayed Out_to_in s
      else sent (out_socket s) = received (in_socket s)
           \<and> sent (in_socket s) = received (out_socket s))"

definition attempted :: "session \<Rightarrow> bool" where
  \<comment> \<open>the session has issued a connect\<close>
  "attempted s = (connect_times s \<noteq> [])"

definition socket_ok :: "bool \<Rightarrow> socket \<Rightarrow> bool" where
  \<comment> \<open>a socket was closed once if it was ever open and is not open now, and never otherwise\<close>
  "socket_ok ever k =
     (os_closes k = (if is_open k \<or> \<not> ever then 0 else 1) \<and> (is_open k \<longrightarrow> ever))"

definition sock_inv :: "session \<Rightarrow> bool" where
  \<comment> \<open>the sockets of a session, and when the outgoing socket is open\<close>
  "sock_inv s =
     (socket_ok True (in_socket s) \<and> socket_ok (attempted s) (out_socket s)
      \<and> (pending s \<noteq> [] \<longrightarrow> attempted s)
      \<and> (entered_forwarding s \<longrightarrow> attempted s)
      \<and> (pending s \<noteq> [] \<and> \<not> entered_forwarding s \<longrightarrow> is_open (out_socket s)))"

definition session_inv :: "int \<Rightarrow> session \<times> int \<Rightarrow> bool" where
  \<comment> \<open>all of it, for a session and the counter it shares; \<open>a0\<close> is the counter before
      the session was constructed\<close>
  "session_inv a0 sa =
     (phase_inv (fst sa) \<and> relay_inv (fst sa) \<and> sock_inv (fst sa)
      \<and> (destroyed (fst sa) \<longleftrightarrow> pending (fst sa) = [])
      \<and> (destroyed (fst sa) \<longrightarrow> \<not> is_open (in_socket (fst sa)) \<and> \<not> is_open (out_socket (fst sa)))
      \<and> snd sa = (if destroyed (fst sa) then a0 else a0 + 1))"

definition retry_inv :: "int \<Rightarrow> int \<Rightarrow> time \<Rightarrow> session \<Rightarrow> bool" where
  \<comment> \<open>a session whose connects have all failed so far: with a connect outstanding, with
      the wait outstanding, or done; \<open>now\<close> is the instant of the last completion\<close>
  "retry_inv ra rd now s =
     (retry_attempts s = ra \<and> retry_delay s = rd
      \<and> \<not> entered_forwarding s \<and> separated rd (connect_times s) \<and> 0 \<le> current_attempt s
      \<and> (if pending s = [Connect_op] then
            current_attempt s < ra
            \<and> length (connect_times s) = nat (current_attempt s) + 1
            \<and> last (connect_times s) \<le> now
          else if pending s = [Wait_op] then
            0 < current_attempt s \<and> current_attempt s \<le> ra
            \<and> length (connect_times s) = nat (current_attempt s)
            \<and> last (connect_times s) + rd \<le> timer s
          else
            pending s = [] \<and> current_attempt s = ra
            \<and> length (connect_times s) = nat ra))"

definition progress :: "session \<Rightarrow> int" where
  \<comment> \<open>the number of completions such a session has taken\<close>
  "progress s = (if pending s = [Wait_op] then 2 * current_attempt s - 1 else 2 * current_attempt s)"

subsection \<open>Concrete inputs\<close>

definition permissive :: environment where
  \<comment> \<open>every address parses and every endpoint can be bound\<close>
  "permissive = \<lparr>parses = (\<lambda>a. True), bindable = (\<lambda>e. True)\<rparr>"

definition range_rule :: forwarder_node where
  \<comment> \<open>the rule of the specification's example: listen range 8000 to 8002, target port 9000\<close>
  "range_rule =
     \<lparr>listen_address = ''127.0.0.1'', target_address = ''10.0.0.1'',
      port_range = Some (8000, 8002), listen_port = 8000, target_port = 9000\<rparr>"

definition range_config :: config where
  "range_config =
     \<lparr>cfg_buffer_size = 4, cfg_tcp_no_delay = True, cfg_retry_attempts = 3, cfg_retry_delay = 2,
      cfg_max_connections = 1, forwarders = [range_rule],
      health_check_enabled = True, health_check_interval = 10\<rparr>"

definition example_target :: endpoint where
  "example_target = tcp_endpoint ''127.0.0.1'' 9090"

definition example_session :: "session \<times> int" where
  \<comment> \<open>a session as the accept handler makes it, for buffer size 4, three attempts, delay 2\<close>
  "example_session = spawn 0 example_target 4 True 3 2 success 0"

definition example_forwarding :: "session \<times> int" where
  \<comment> \<open>the same session once its first connect has succeeded\<close>
  "example_forwarding =
     (case deliver 1 (Connected success success) example_session of
        None \<Rightarrow> example_session
      | Some sa \<Rightarrow> sa)"

definition example_forwarder :: forwarder where
  \<comment> \<open>the forwarder the constructor builds from the range rule: three listeners\<close>
  "example_forwarder =
     (case TCPForwarder permissive 0 range_config of Inl e \<Rightarrow> no_forwarder | Inr fw \<Rightarrow> fw)"

definition example_events :: "(time \<times> event) list" where
  \<comment> \<open>two connections are accepted while the ceiling is 1, an accept fails, and the one
      session relays four bytes and ends by end of stream\<close>
  "example_events =
     [(1, Accepted 0 success success),
      (1, Accepted 1 success success),
      (2, Completed 0 (Connected success success)),
      (3, Accepted 2 connection_reset success),
      (4, Completed 0 (Read_done In_to_out success ''ABCD'')),
      (4, Completed 0 (Write_done In_to_out success 4)),
      (5, Completed 0 (Read_done In_to_out eof [])),
      (5, Completed 0 (Read_done Out_to_in operation_aborted []))]"

definition zero_config :: config where
  \<comment> \<open>the same configuration with \<^verbatim>\<open>max_connections: 0\<close>\<close>
  "zero_config = range_config\<lparr>cfg_max_connections := 0\<rparr>"

definition zero_events :: "(time \<times> event) list" where
  "zero_events =
     [(1, Accepted 0 success success), (2, Accepted 1 success success), (3, Accepted 0 eof success),
      (3, Accepted 2 success bad_descriptor)]"




definition reset_events :: "(time \<times> completion) list" where
  \<comment> \<open>the connect succeeds; then both reads fail with a reset\<close>
  "reset_events =
     [(1, Connected success success),
      (2, Read_done In_to_out connection_reset []),
      (2, Read_done Out_to_in connection_reset [])]"

definition refused_events :: "(time \<times> completion) list" where
  \<comment> \<open>three connects fail, each followed by the wait of two seconds or more\<close>
  "refused_events =
     [(1, Connected connection_refused success), (3, Timer_fired success),
      (3, Connected connection_refused success), (6, Timer_fired success),
      (8, Connected connection_refused success), (10, Timer_fired success)]"

section \<open>Evaluation\<close>

lemmas model_defs =
  TCPForwarder_def add_forwarder_def start_pair_def make_address_def start_con_def plz_accept_def
  femit_def flog_def tcp_endpoint_def INT_MAX_def Let_def on_accept_def accept_completed_def
  spawn_def Session_def Session_dtor_def release_def start_def deliver_def
  on_connect_def on_wait_def on_read_def on_write_def attempt_connection_def plz_forward_def
  forward_data_def close_sockets_def completed_def read_into_def written_to_def
  emit_def log_def issue_def buffer_def close_def opened_def fresh_socket_def accepted_socket_def
  to_string_def

lemmas example_defs =
  example_forwarder_def example_events_def permissive_def range_config_def range_rule_def
  example_session_def example_forwarding_def example_target_def

section \<open>Start-up: expansion of a port range\<close>

lemma start_con_ok:
  assumes "bindable env l"
  shows "\<exists>fw'. start_con env now l t (cfg_buffer_size cfg) (cfg_tcp_no_delay cfg)
                (cfg_retry_attempts cfg) (cfg_retry_delay cfg) (cfg_max_connections cfg) fw = Inr fw'
          \<and> listeners fw' = listeners fw @ [new_listener cfg l t]
          \<and> sessions fw' = sessions fw \<and> active_connections fw' = active_connections fw"
  using assms
  by (simp add: start_con_def Let_def plz_accept_def femit_def flog_def new_listener_def)

lemma start_pair_ok:
  assumes "parses env la" "parses env ta" "bindable env (tcp_endpoint la lp)"
  shows "\<exists>fw'. start_pair env now cfg la lp ta tp fw = Inr fw'
          \<and> listeners fw' = listeners fw @ [new_listener cfg (tcp_endpoint la lp) (tcp_endpoint ta tp)]
          \<and> sessions fw' = sessions fw \<and> active_connections fw' = active_connections fw"
  using assms start_con_ok[of env "tcp_endpoint la lp" now "tcp_endpoint ta tp" cfg fw]
  by (simp add: start_pair_def make_address_def)

lemma range_loop_ok:
  assumes "parses env la" "parses env ta"
    and "\<forall>p. port \<le> p \<and> p \<le> end_port \<longrightarrow> bindable env (tcp_endpoint la p)"
    and "end_port < INT_MAX"
  shows "\<exists>fw'. range_loop env now cfg la ta port end_port fw = Inr fw'
          \<and> listeners fw' = listeners fw @
               map (\<lambda>p. new_listener cfg (tcp_endpoint la p) (tcp_endpoint ta p)) [port..end_port]
          \<and> sessions fw' = sessions fw \<and> active_connections fw' = active_connections fw"
  using assms
proof (induction env now cfg la ta port end_port fw rule: range_loop.induct)
  case (1 env now cfg la ta port end_port fw)
  show ?case
  proof (cases "port \<le> end_port")
    case False
    then show ?thesis by simp
  next
    case True
    from "1.prems" True have b: "bindable env (tcp_endpoint la port)" by simp
    from start_pair_ok[OF "1.prems"(1,2) b, of now cfg port fw]
    obtain fw1 where fw1: "start_pair env now cfg la port ta port fw = Inr fw1"
      "listeners fw1 = listeners fw @ [new_listener cfg (tcp_endpoint la port) (tcp_endpoint ta port)]"
      "sessions fw1 = sessions fw" "active_connections fw1 = active_connections fw"
      by blast
    from True "1.prems"(4) have ne: "port \<noteq> INT_MAX" by simp
    have "\<exists>fw'. range_loop env now cfg la ta (port + 1) end_port fw1 = Inr fw'
          \<and> listeners fw' = listeners fw1 @
               map (\<lambda>p. new_listener cfg (tcp_endpoint la p) (tcp_endpoint ta p)) [port + 1..end_port]
          \<and> sessions fw' = sessions fw1 \<and> active_connections fw' = active_connections fw1"
      using "1.IH"[OF True fw1(1) ne] "1.prems" by simp
    then obtain fw' where fw': "range_loop env now cfg la ta (port + 1) end_port fw1 = Inr fw'"
      "listeners fw' = listeners fw1 @
               map (\<lambda>p. new_listener cfg (tcp_endpoint la p) (tcp_endpoint ta p)) [port + 1..end_port]"
      "sessions fw' = sessions fw1" "active_connections fw' = active_connections fw1"
      by blast
    have "range_loop env now cfg la ta port end_port fw = Inr fw'"
      using True fw1(1) ne fw'(1) by (subst range_loop.simps) simp
    moreover have "[port..end_port] = port # [port + 1..end_port]"
      using True by (simp add: upto_rec1)
    ultimately show ?thesis using fw' fw1 by simp
  qed
qed

lemma uint_port: "0 \<le> p \<Longrightarrow> p \<le> 65535 \<Longrightarrow> uint (port_num (tcp_endpoint a p)) = p"
  by (simp add: tcp_endpoint_def uint_word_of_int take_bit_int_eq_self)

text \<open>
  C1, as the specification states it, at its own example: a rule with listen range 8000 to
  8002 and target port 9000 would give the pairs 8000 to 9000, 8001 to 9001 and 8002 to
  9002. The constructor builds the target endpoint from the loop variable \<^verbatim>\<open>port\<close>
  too, so the pairs are 8000 to 8000, 8001 to 8001 and 8002 to 8002.
\<close>

theorem range_expansion_counterexample:
  "port_pairs (TCPForwarder permissive 0 range_config)
     = Some [(8000, 8000), (8001, 8001), (8002, 8002)]
   \<and> port_pairs (TCPForwarder permissive 0 range_config)
     \<noteq> Some [(8000, 9000), (8001, 9001), (8002, 9002)]"
  by (simp add: TCPForwarder_def add_forwarder_def range_config_def range_rule_def permissive_def
      start_pair_def make_address_def start_con_def plz_accept_def femit_def flog_def
      port_pairs_def port_pair_def tcp_endpoint_def INT_MAX_def Let_def)

text \<open>
  C1, amended: a rule with the port range from \<open>start_port\<close> to \<open>end_port\<close> (valid port
  numbers, \<open>start_port \<le> end_port\<close>, addresses that parse, listen endpoints that can be
  bound) adds exactly \<open>end_port - start_port + 1\<close> listeners; the listener at offset \<open>i\<close>
  listens on port \<open>start_port + i\<close> and forwards to the same port number
  \<open>start_port + i\<close> on the target address, and has its own accept outstanding. The
  \<open>target_port\<close> of the rule plays no part.
\<close>

theorem range_expansion:
  assumes "port_range f = Some (start_port, end_port)"
    and "0 \<le> start_port" and "start_port \<le> end_port" and "end_port \<le> 65535"
    and "parses env (listen_address f)" and "parses env (target_address f)"
    and "\<forall>p. start_port \<le> p \<and> p \<le> end_port \<longrightarrow> bindable env (tcp_endpoint (listen_address f) p)"
  shows "\<exists>fw'. add_forwarder env now cfg f fw = Inr fw'
          \<and> length (listeners fw') = length (listeners fw) + nat (end_port - start_port + 1)
          \<and> (\<forall>i < nat (end_port - start_port + 1).
                listeners fw' ! (length (listeners fw) + i)
                  = new_listener cfg (tcp_endpoint (listen_address f) (start_port + int i))
                                     (tcp_endpoint (target_address f) (start_port + int i))
                \<and> port_pair (listeners fw' ! (length (listeners fw) + i))
                  = (start_port + int i, start_port + int i))"
proof -
  have "end_port < INT_MAX" using assms(4) by (simp add: INT_MAX_def)
  from range_loop_ok[OF assms(5,6,7) this, of now cfg fw]
  obtain fw' where fw': "range_loop env now cfg (listen_address f) (target_address f)
                           start_port end_port fw = Inr fw'"
    "listeners fw' = listeners fw @
       map (\<lambda>p. new_listener cfg (tcp_endpoint (listen_address f) p) (tcp_endpoint (target_address f) p))
         [start_port..end_port]"
    by blast
  have run: "add_forwarder env now cfg f fw = Inr fw'"
    using assms(1) fw'(1) by (simp add: add_forwarder_def)
  have len: "length (listeners fw') = length (listeners fw) + nat (end_port - start_port + 1)"
    using fw'(2) by simp
  have each: "listeners fw' ! (length (listeners fw) + i)
                  = new_listener cfg (tcp_endpoint (listen_address f) (start_port + int i))
                                     (tcp_endpoint (target_address f) (start_port + int i))
              \<and> port_pair (listeners fw' ! (length (listeners fw) + i))
                  = (start_port + int i, start_port + int i)"
    if "i < nat (end_port - start_port + 1)" for i
  proof -
    from that have le: "start_port + int i \<le> end_port" by simp
    have nth: "listeners fw' ! (length (listeners fw) + i)
                 = new_listener cfg (tcp_endpoint (listen_address f) (start_port + int i))
                                    (tcp_endpoint (target_address f) (start_port + int i))"
      using fw'(2) that le by (simp add: nth_append)
    have "0 \<le> start_port + int i" "start_port + int i \<le> 65535"
      using assms(2,4) le by simp_all
    then show ?thesis
      using nth by (simp add: port_pair_def new_listener_def uint_port)
  qed
  from run len each show ?thesis by blast
qed

theorem range_expansion_witness:
  "port_range range_rule = Some (8000, 8002)
   \<and> parses permissive (listen_address range_rule)
   \<and> parses permissive (target_address range_rule)
   \<and> (\<forall>e. bindable permissive e)
   \<and> (\<exists>fw'. add_forwarder permissive 0 range_config range_rule no_forwarder = Inr fw'
         \<and> length (listeners fw') = 3
         \<and> map port_pair (listeners fw') = [(8000, 8000), (8001, 8001), (8002, 8002)])"
proof -
  have h: "port_range range_rule = Some (8000, 8002)"
    "parses permissive (listen_address range_rule)"
    "parses permissive (target_address range_rule)"
    "\<forall>e. bindable permissive e"
    by (simp_all add: range_rule_def permissive_def)
  from range_expansion[of range_rule 8000 8002 permissive 0 range_config no_forwarder] h
  obtain fw' where fw': "add_forwarder permissive 0 range_config range_rule no_forwarder = Inr fw'"
    "length (listeners fw') = length (listeners no_forwarder) + 3"
    "\<forall>i<3. port_pair (listeners fw' ! (length (listeners no_forwarder) + i))
             = (8000 + int i, 8000 + int i)"
    by auto
  have l3: "length (listeners fw') = 3" using fw'(2) by (simp add: no_forwarder_def)
  have "port_pair (listeners fw' ! 0) = (8000, 8000)"
    "port_pair (listeners fw' ! Suc 0) = (8001, 8001)"
    "port_pair (listeners fw' ! Suc (Suc 0)) = (8002, 8002)"
    using fw'(3)[rule_format, of 0] fw'(3)[rule_format, of "Suc 0"]
      fw'(3)[rule_format, of "Suc (Suc 0)"]
    by (simp_all add: no_forwarder_def)
  then have "map port_pair (listeners fw') = [(8000, 8000), (8001, 8001), (8002, 8002)]"
    using l3 by (auto simp: list_eq_iff_nth_eq less_Suc_eq numeral_3_eq_3)
  with h fw'(1) l3 show ?thesis by simp
qed


section \<open>Lifetime of a session\<close>

lemmas handler_defs =
  on_connect_def on_wait_def on_read_def on_write_def attempt_connection_def plz_forward_def
  forward_data_def close_sockets_def completed_def read_into_def written_to_def
  emit_def log_def issue_def

lemma destroyed_handlers [simp]:
  "destroyed (on_connect now ec nd s) = destroyed s"
  "destroyed (on_wait now ec s) = destroyed s"
  "destroyed (on_read now d ec n s) = destroyed s"
  "destroyed (on_write now d ec s) = destroyed s"
  "destroyed (completed op s) = destroyed s"
  "destroyed (read_into d bytes s) = destroyed s"
  "destroyed (written_to d bytes s) = destroyed s"
  by (simp_all add: handler_defs Let_def split: direction.splits)

lemma release_alive:
  assumes "\<not> destroyed s" and "release now (s, a) = (s', a')"
  shows "a' = (if destroyed s' then a - 1 else a) \<and> (destroyed s' \<longleftrightarrow> pending s' = [])"
  using assms
  by (auto simp: release_def Session_dtor_def Let_def log_def emit_def split: if_splits)

lemma write_of_mem: "write_of d ops = Some bytes \<Longrightarrow> Write_op d bytes \<in> set ops"
  by (induction d ops rule: write_of.induct) (auto split: if_splits)

lemma handler_needs_pending: "pending s = [] \<Longrightarrow> handler now c s = None"
  by (cases c) simp_all

lemma handler_destroyed: "handler now c s = Some s' \<Longrightarrow> destroyed s' = destroyed s"
  by (cases c) (auto split: if_splits option.splits)

lemma deliver_alive:
  assumes "deliver now c (s, a) = Some (s', a')" and "\<not> destroyed s"
  shows "a' = (if destroyed s' then a - 1 else a) \<and> (destroyed s' \<longleftrightarrow> pending s' = [])"
proof -
  from assms(1) obtain s1 where s1: "handler now c s = Some s1" "release now (s1, a) = (s', a')"
    by (auto simp: deliver_def split: option.splits)
  from handler_destroyed[OF s1(1)] assms(2) have "\<not> destroyed s1" by simp
  then show ?thesis using s1(2) by (rule release_alive)
qed

lemma deliver_dead: "pending s = [] \<Longrightarrow> deliver now c (s, a) = None"
  by (simp add: deliver_def handler_needs_pending)



section \<open>The forwarder: accounting and accepting\<close>

lemma count_update:
  "i < length xs \<Longrightarrow>
     int (length (filter P (xs[i := y])))
       = int (length (filter P xs)) - (if P (xs ! i) then 1 else 0) + (if P y then 1 else 0)"
proof (induction xs arbitrary: i)
  case Nil
  then show ?case by simp
next
  case (Cons x xs)
  show ?case
  proof (cases i)
    case 0
    then show ?thesis by simp
  next
    case (Suc j)
    with Cons.prems have "j < length xs" by simp
    from Cons.IH[OF this] Suc show ?thesis by (auto split: if_splits)
  qed
qed

lemma spawn_alive:
  assumes "spawn now target bs nd ra rd ec a = (s, a')"
  shows "a' = (if destroyed s then a else a + 1) \<and> (destroyed s \<longleftrightarrow> pending s = [])"
proof -
  obtain s0 where s0: "Session now accepted_socket target bs nd ra rd ec a = (s0, a + 1)" "\<not> destroyed s0"
    by (simp add: Session_def Let_def log_def emit_def)
  have "\<not> destroyed (start now s0)"
    using s0(2) by (simp add: start_def attempt_connection_def Let_def log_def emit_def issue_def)
  moreover have "release now (start now s0, a + 1) = (s, a')"
    using assms s0(1) by (simp add: spawn_def)
  ultimately show ?thesis using release_alive by fastforce
qed

lemma list_all_update: "list_all P xs \<Longrightarrow> P y \<Longrightarrow> list_all P (xs[i := y])"
  by (induction xs arbitrary: i) (auto split: nat.splits)

lemma on_accept_error:
  "ec \<noteq> success \<Longrightarrow>
     on_accept now l ec nd fw = plz_accept now l (flog now ERROR (''Accept error: '' @ message ec) fw)"
  by (simp add: on_accept_def)

lemma on_accept_reject:
  "l_max_connections (listeners fw ! l) \<le> active_connections fw \<Longrightarrow>
     on_accept now l success nd fw
       = plz_accept now l (femit now (Close In_socket)
           (flog now WARN ''max connections reached. Rejecting new connection.'' fw))"
  by (simp add: on_accept_def)

lemma on_accept_admit:
  assumes "\<not> l_max_connections (listeners fw ! l) \<le> active_connections fw"
    and "spawn now (l_target_endpoint (listeners fw ! l)) (l_buffer_size (listeners fw ! l))
           (l_tcp_no_delay (listeners fw ! l)) (l_retry_attempts (listeners fw ! l))
           (l_retry_delay (listeners fw ! l)) nd (active_connections fw) = (s, a')"
  shows "on_accept now l success nd fw
           = plz_accept now l ((flog now INFO ''Accepted new connection'' fw)
               \<lparr>sessions := sessions fw @ [s], active_connections := a'\<rparr>)"
  using assms by (simp add: on_accept_def Let_def flog_def femit_def)

lemma accounted_frame [simp]:
  "accounted (plz_accept now l fw) = accounted fw"
  "accounted (femit now a fw) = accounted fw"
  "accounted (flog now lv m fw) = accounted fw"
  "accounted (accept_completed l fw) = accounted fw"
  by (simp_all add: accounted_def plz_accept_def femit_def flog_def accept_completed_def)

lemma on_accept_accounted:
  assumes "accounted fw"
  shows "accounted (on_accept now l ec nd fw)"
proof (cases "ec = success")
  case False
  then show ?thesis using assms by (simp add: on_accept_error)
next
  case True
  show ?thesis
  proof (cases "l_max_connections (listeners fw ! l) \<le> active_connections fw")
    case True
    with \<open>ec = success\<close> assms show ?thesis by (simp add: on_accept_reject)
  next
    case False
    obtain s a' where sp: "spawn now (l_target_endpoint (listeners fw ! l)) (l_buffer_size (listeners fw ! l))
        (l_tcp_no_delay (listeners fw ! l)) (l_retry_attempts (listeners fw ! l))
        (l_retry_delay (listeners fw ! l)) nd (active_connections fw) = (s, a')"
      by (meson surj_pair)
    from spawn_alive[OF sp] assms
    have "accounted ((flog now INFO ''Accepted new connection'' fw)
               \<lparr>sessions := sessions fw @ [s], active_connections := a'\<rparr>)"
      by (auto simp: accounted_def flog_def femit_def)
    then show ?thesis
      using \<open>ec = success\<close> on_accept_admit[OF False sp] by simp
  qed
qed

lemma step_accounted:
  assumes "accounted fw" and "step now e fw = Some fw'"
  shows "accounted fw'"
proof (cases e)
  case (Accepted l ec nd)
  have "accounted (accept_completed l fw)"
    using assms(1) by (simp add: accounted_def accept_completed_def)
  with assms(2) Accepted show ?thesis
    by (auto split: if_splits intro: on_accept_accounted)
next
  case (Completed i c)
  with assms(2) obtain s' a' where i: "i < length (sessions fw)"
    and d: "deliver now c (sessions fw ! i, active_connections fw) = Some (s', a')"
    and fw': "fw' = fw\<lparr>sessions := (sessions fw)[i := s'], active_connections := a'\<rparr>"
    by (auto split: if_splits option.splits)
  let ?s = "sessions fw ! i"
  from assms(1) i have inv: "destroyed ?s \<longleftrightarrow> pending ?s = []"
    by (simp add: accounted_def list_all_length)
  with d have alive: "\<not> destroyed ?s" using deliver_dead by fastforce
  from deliver_alive[OF d alive]
  have a': "a' = (if destroyed s' then active_connections fw - 1 else active_connections fw)"
    and s': "destroyed s' \<longleftrightarrow> pending s' = []" by simp_all
  have "list_all (\<lambda>s. destroyed s \<longleftrightarrow> pending s = []) ((sessions fw)[i := s'])"
    using assms(1) s' by (simp add: accounted_def list_all_update)
  moreover have "a' = int (length ((sessions fw)[i := s'])) - int (length (filter destroyed ((sessions fw)[i := s'])))"
    using assms(1) a' alive count_update[OF i, of destroyed s'] by (simp add: accounted_def)
  ultimately show ?thesis by (simp add: fw' accounted_def)
qed

lemma exec_accounted:
  assumes "accounted fw" and "exec now fw evs = Some (t, fw')"
  shows "accounted fw'"
  using assms
proof (induction evs arbitrary: now fw)
  case Nil
  then show ?case by simp
next
  case (Cons ev evs)
  obtain t1 e where ev: "ev = (t1, e)" by (cases ev)
  with Cons.prems(2) obtain fw1 where fw1: "step t1 e fw = Some fw1" "exec t1 fw1 evs = Some (t, fw')"
    by (auto split: if_splits option.splits)
  from step_accounted[OF Cons.prems(1) fw1(1)] Cons.IH fw1(2) show ?case by blast
qed


lemma start_con_started:
  assumes "start_con env now l t bs nd ra rd (cfg_max_connections cfg) fw = Inr fw'"
    and "started cfg fw"
  shows "started cfg fw'"
  using assms
  by (auto simp: start_con_def Let_def plz_accept_def femit_def flog_def started_def rejections_def
      nth_append split: if_splits)

lemma start_pair_started:
  assumes "start_pair env now cfg la lp ta tp fw = Inr fw'" and "started cfg fw"
  shows "started cfg fw'"
  using assms
  by (auto simp: start_pair_def split: sum.splits intro: start_con_started)

lemma range_loop_started:
  assumes "range_loop env now cfg la ta port end_port fw = Inr fw'" and "started cfg fw"
  shows "started cfg fw'"
  using assms
proof (induction env now cfg la ta port end_port fw rule: range_loop.induct)
  case (1 env now cfg la ta port end_port fw)
  show ?case
  proof (cases "port \<le> end_port")
    case False
    with "1.prems" show ?thesis by simp
  next
    case True
    with "1.prems"(1) obtain fw1 where fw1: "start_pair env now cfg la port ta port fw = Inr fw1"
      and ne: "port \<noteq> INT_MAX"
      and rest: "range_loop env now cfg la ta (port + 1) end_port fw1 = Inr fw'"
      by (subst (asm) range_loop.simps) (auto split: sum.splits if_splits)
    from start_pair_started[OF fw1 "1.prems"(2)] have "started cfg fw1" .
    with "1.IH"[OF True fw1 ne rest] show ?thesis by simp
  qed
qed

lemma add_forwarder_started:
  assumes "add_forwarder env now cfg f fw = Inr fw'" and "started cfg fw"
  shows "started cfg fw'"
  using assms
  by (auto simp: add_forwarder_def split: option.splits prod.splits
      intro: range_loop_started start_pair_started)

lemma add_forwarders_started:
  assumes "add_forwarders env now cfg fs fw = Inr fw'" and "started cfg fw"
  shows "started cfg fw'"
  using assms
  by (induction fs arbitrary: fw) (auto split: sum.splits intro: add_forwarder_started)

lemma TCPForwarder_started:
  assumes "TCPForwarder env now cfg = Inr fw"
  shows "started cfg fw"
proof -
  have "started cfg (flog now TRACE ''Trying to initiate TCP Forwarder...''
          \<lparr>active_connections = 0, listeners = [], sessions = [], ftrace = []\<rparr>)"
    by (simp add: started_def flog_def femit_def rejections_def)
  with assms show ?thesis
    unfolding TCPForwarder_def by (rule add_forwarders_started)
qed

lemma started_accounted: "started cfg fw \<Longrightarrow> accounted fw"
  by (simp add: started_def accounted_def)

lemma on_accept_listeners:
  "listeners (on_accept now l ec nd fw)
     = (listeners fw)[l := (listeners fw ! l)\<lparr>accept_outstanding := True\<rparr>]"
proof (cases "ec = success")
  case False
  then show ?thesis by (simp add: on_accept_error plz_accept_def femit_def flog_def)
next
  case True
  show ?thesis
  proof (cases "l_max_connections (listeners fw ! l) \<le> active_connections fw")
    case True
    with \<open>ec = success\<close> show ?thesis
      by (simp add: on_accept_reject plz_accept_def femit_def flog_def)
  next
    case False
    obtain s a' where sp: "spawn now (l_target_endpoint (listeners fw ! l)) (l_buffer_size (listeners fw ! l))
        (l_tcp_no_delay (listeners fw ! l)) (l_retry_attempts (listeners fw ! l))
        (l_retry_delay (listeners fw ! l)) nd (active_connections fw) = (s, a')"
      by (meson surj_pair)
    show ?thesis
      using \<open>ec = success\<close> on_accept_admit[OF False sp]
      by (simp add: plz_accept_def femit_def flog_def)
  qed
qed

lemma step_accept_listeners:
  assumes "step now (Accepted l ec nd) fw = Some fw'"
  shows "listeners fw' = listeners fw"
proof -
  from assms have l: "l < length (listeners fw)" "accept_outstanding (listeners fw ! l)"
    and fw': "fw' = on_accept now l ec nd (accept_completed l fw)"
    by (auto split: if_splits)
  show ?thesis
    unfolding fw' on_accept_listeners using l
    by (simp add: accept_completed_def list_update_same_conv)
qed

lemma step_listeners:
  assumes "step now e fw = Some fw'"
  shows "listeners fw' = listeners fw"
proof (cases e)
  case (Accepted l ec nd)
  with assms show ?thesis by (blast intro: step_accept_listeners)
next
  case (Completed i c)
  with assms show ?thesis by (auto split: if_splits option.splits)
qed

lemma exec_listeners:
  assumes "exec now fw evs = Some (t, fw')"
  shows "listeners fw' = listeners fw"
  using assms
proof (induction evs arbitrary: now fw)
  case Nil
  then show ?case by simp
next
  case (Cons ev evs)
  obtain t1 e where ev: "ev = (t1, e)" by (cases ev)
  with Cons.prems obtain fw1 where fw1: "step t1 e fw = Some fw1" "exec t1 fw1 evs = Some (t, fw')"
    by (auto split: if_splits option.splits)
  from step_listeners[OF fw1(1)] Cons.IH[OF fw1(2)] show ?case by simp
qed

lemma started_listening: "started cfg fw \<Longrightarrow> listening cfg fw"
  by (simp add: started_def listening_def)

lemma reachable_listening:
  assumes "TCPForwarder env t0 cfg = Inr fw0" and "exec t0 fw0 evs = Some (t, fw)"
  shows "listening cfg fw"
  using started_listening[OF TCPForwarder_started[OF assms(1)]] exec_listeners[OF assms(2)]
  by (simp add: listening_def)

lemma reachable_accounted:
  assumes "TCPForwarder env t0 cfg = Inr fw0" and "exec t0 fw0 evs = Some (t, fw)"
  shows "accounted fw"
  using started_accounted[OF TCPForwarder_started[OF assms(1)]] assms(2) by (rule exec_accounted)

lemma live_count:
  "int (length xs) - int (length (filter P xs)) = int (length (filter (\<lambda>x. \<not> P x) xs))"
  using sum_length_filter_compl[of P xs] by simp


lemma example_forwarder_built: "TCPForwarder permissive 0 range_config = Inr example_forwarder"
  by (simp add: example_defs model_defs)

text \<open>
  C5: in every state the forwarder reaches from its constructor, \<^verbatim>\<open>active_connections_\<close>
  is the number of sessions constructed minus the number of sessions destroyed, hence never
  negative; a destroyed session has no operation outstanding, so no handler of it can run
  again and its destructor, the only decrement, cannot run a second time. The constructor
  of a session is the only increment.
\<close>

theorem admission_counter:
  assumes "TCPForwarder env t0 cfg = Inr fw0" and "exec t0 fw0 evs = Some (t, fw)"
  shows "active_connections fw
           = int (length (sessions fw)) - int (length (filter destroyed (sessions fw)))
       \<and> 0 \<le> active_connections fw
       \<and> (\<forall>i < length (sessions fw). destroyed (sessions fw ! i) \<longrightarrow>
             pending (sessions fw ! i) = [] \<and> (\<forall>now c. step now (Completed i c) fw = None))"
proof -
  have acc: "accounted fw" using assms by (rule reachable_accounted)
  then have eq: "active_connections fw
           = int (length (sessions fw)) - int (length (filter destroyed (sessions fw)))"
    by (simp add: accounted_def)
  have "length (filter destroyed (sessions fw)) \<le> length (sessions fw)" by simp
  with eq have nonneg: "0 \<le> active_connections fw" by simp
  have dead: "pending (sessions fw ! i) = [] \<and> (\<forall>now c. step now (Completed i c) fw = None)"
    if "i < length (sessions fw)" "destroyed (sessions fw ! i)" for i
  proof -
    from acc that have "pending (sessions fw ! i) = []"
      by (simp add: accounted_def list_all_length)
    then show ?thesis using that(1) by (simp add: deliver_dead)
  qed
  from eq nonneg dead show ?thesis by blast
qed

theorem admission_counter_witness:
  "TCPForwarder permissive 0 range_config = Inr example_forwarder
   \<and> (\<exists>t fw. exec 0 example_forwarder example_events = Some (t, fw)
         \<and> length (sessions fw) = 1 \<and> length (filter destroyed (sessions fw)) = 1
         \<and> active_connections fw = 0)"
proof -
  have run: "map_option (\<lambda>r. (length (sessions (snd r)), length (filter destroyed (sessions (snd r)))))
               (exec 0 example_forwarder example_events) = Some (1, 1)"
    by (simp add: example_defs model_defs)
  then obtain t fw where r: "exec 0 example_forwarder example_events = Some (t, fw)"
    and n: "length (sessions fw) = 1" "length (filter destroyed (sessions fw)) = 1"
    by auto
  from admission_counter[OF example_forwarder_built r] n have "active_connections fw = 0"
    by simp
  with example_forwarder_built r n show ?thesis by simp
qed


lemma reject_step:
  assumes "l < length (listeners fw)" and "accept_outstanding (listeners fw ! l)"
    and "l_max_connections (listeners fw ! l) \<le> active_connections fw"
  shows "step now (Accepted l success nd_ec) fw =
           Some (fw\<lparr>ftrace := ftrace fw @
                   [(now, Log WARN ''max connections reached. Rejecting new connection.''),
                    (now, Close In_socket), (now, Async_accept l)]\<rparr>)"
proof -
  let ?fw = "accept_completed l fw"
  have "l_max_connections (listeners ?fw ! l) \<le> active_connections ?fw"
    using assms by (simp add: accept_completed_def)
  from on_accept_reject[OF this, of now nd_ec] assms(1,2) show ?thesis
    by (simp add: accept_completed_def plz_accept_def femit_def flog_def list_update_same_conv)
qed

lemma error_step:
  assumes "l < length (listeners fw)" and "accept_outstanding (listeners fw ! l)"
    and "ec \<noteq> success"
  shows "step now (Accepted l ec nd_ec) fw =
           Some (fw\<lparr>ftrace := ftrace fw @
                   [(now, Log ERROR (''Accept error: '' @ message ec)), (now, Async_accept l)]\<rparr>)"
  using assms
  by (simp add: on_accept_error accept_completed_def plz_accept_def femit_def flog_def
      list_update_same_conv)

lemma on_accept_last: "snd (last (ftrace (on_accept now l ec nd fw))) = Async_accept l"
  by (simp add: on_accept_def Let_def plz_accept_def femit_def)

text \<open>
  C3: in a reachable state where the number of live sessions is at least
  \<^verbatim>\<open>max_connections\<close>, an accept that completes without error leaves the forwarder as
  it was but for three entries of its trace: the warning, the close of the accepted
  socket, and the next \<^verbatim>\<open>async_accept\<close>. No session is constructed (\<open>sessions\<close> is
  unchanged, so no connect is issued) and the counter is unchanged.
\<close>

theorem admission_rejection:
  assumes "TCPForwarder env t0 cfg = Inr fw0" and "exec t0 fw0 evs = Some (t, fw)"
    and "l < length (listeners fw)"
    and "cfg_max_connections cfg \<le> int (length (filter (\<lambda>s. \<not> destroyed s) (sessions fw)))"
  shows "step now (Accepted l success nd_ec) fw =
           Some (fw\<lparr>ftrace := ftrace fw @
                   [(now, Log WARN ''max connections reached. Rejecting new connection.''),
                    (now, Close In_socket), (now, Async_accept l)]\<rparr>)"
proof -
  from reachable_listening[OF assms(1,2)] assms(3)
  have L: "accept_outstanding (listeners fw ! l)"
    "l_max_connections (listeners fw ! l) = cfg_max_connections cfg"
    by (simp_all add: listening_def list_all_length)
  from reachable_accounted[OF assms(1,2)]
  have "active_connections fw = int (length (filter (\<lambda>s. \<not> destroyed s) (sessions fw)))"
    by (simp add: accounted_def live_count)
  with assms(4) L(2) have "l_max_connections (listeners fw ! l) \<le> active_connections fw"
    by simp
  with assms(3) L(1) show ?thesis by (rule reject_step)
qed

theorem admission_rejection_witness:
  "TCPForwarder permissive 0 range_config = Inr example_forwarder
   \<and> (\<exists>t fw. exec 0 example_forwarder [(1, Accepted 0 success success)] = Some (t, fw)
         \<and> 1 < length (listeners fw)
         \<and> cfg_max_connections range_config
             \<le> int (length (filter (\<lambda>s. \<not> destroyed s) (sessions fw)))
         \<and> step 2 (Accepted 1 success success) fw =
             Some (fw\<lparr>ftrace := ftrace fw @
                     [(2, Log WARN ''max connections reached. Rejecting new connection.''),
                      (2, Close In_socket), (2, Async_accept 1)]\<rparr>))"
proof -
  have run: "map_option (\<lambda>r. (length (listeners (snd r)),
                 length (filter (\<lambda>s. \<not> destroyed s) (sessions (snd r)))))
               (exec 0 example_forwarder [(1, Accepted 0 success success)]) = Some (3, 1)"
    by (simp add: example_defs model_defs)
  then obtain t fw where r: "exec 0 example_forwarder [(1, Accepted 0 success success)] = Some (t, fw)"
    and n: "length (listeners fw) = 3" "length (filter (\<lambda>s. \<not> destroyed s) (sessions fw)) = 1"
    by auto
  have live: "cfg_max_connections range_config
             \<le> int (length (filter (\<lambda>s. \<not> destroyed s) (sessions fw)))"
    using n(2) by (simp add: range_config_def)
  have l: "1 < length (listeners fw)" using n(1) by simp
  from admission_rejection[OF example_forwarder_built r l live, of 2 success]
    example_forwarder_built r l live
  show ?thesis by blast
qed

text \<open>
  C7: in every reachable state every listener has an accept outstanding, and the number of
  listeners is the one the constructor made. Whatever the completion of that accept is
  (no error and admitted, no error and rejected, or an error), its handler runs to the end
  and the last thing it does is to issue the next \<^verbatim>\<open>async_accept\<close> on the same
  listener. On an error it logs the error and does nothing else.
\<close>

theorem accept_loop:
  assumes "TCPForwarder env t0 cfg = Inr fw0" and "exec t0 fw0 evs = Some (t, fw)"
    and "l < length (listeners fw)"
  shows "length (listeners fw) = length (listeners fw0)
       \<and> accept_outstanding (listeners fw ! l)
       \<and> (\<exists>fw'. step now (Accepted l ec nd_ec) fw = Some fw'
             \<and> listeners fw' = listeners fw
             \<and> accept_outstanding (listeners fw' ! l)
             \<and> snd (last (ftrace fw')) = Async_accept l)
       \<and> (ec \<noteq> success \<longrightarrow>
             step now (Accepted l ec nd_ec) fw =
               Some (fw\<lparr>ftrace := ftrace fw @
                       [(now, Log ERROR (''Accept error: '' @ message ec)), (now, Async_accept l)]\<rparr>))"
proof -
  have len: "length (listeners fw) = length (listeners fw0)"
    using exec_listeners[OF assms(2)] by simp
  from reachable_listening[OF assms(1,2)] assms(3)
  have out: "accept_outstanding (listeners fw ! l)"
    by (simp add: listening_def list_all_length)
  obtain fw' where fw': "step now (Accepted l ec nd_ec) fw = Some fw'"
    using assms(3) out by simp
  from step_accept_listeners[OF fw'] have same: "listeners fw' = listeners fw" .
  have last: "snd (last (ftrace fw')) = Async_accept l"
    using fw' assms(3) out by (auto simp: on_accept_last)
  have err: "step now (Accepted l ec nd_ec) fw =
               Some (fw\<lparr>ftrace := ftrace fw @
                       [(now, Log ERROR (''Accept error: '' @ message ec)), (now, Async_accept l)]\<rparr>)"
    if "ec \<noteq> success"
    using assms(3) out that by (rule error_step)
  from len out fw' same last err show ?thesis by simp
qed


theorem accept_loop_witness:
  "TCPForwarder permissive 0 range_config = Inr example_forwarder
   \<and> (\<exists>t fw. exec 0 example_forwarder example_events = Some (t, fw)
         \<and> 2 < length (listeners fw)
         \<and> length (listeners fw) = length (listeners example_forwarder)
         \<and> accept_outstanding (listeners fw ! 2)
         \<and> (\<exists>fw'. step 6 (Accepted 2 connection_reset success) fw = Some fw'
               \<and> accept_outstanding (listeners fw' ! 2)
               \<and> snd (last (ftrace fw')) = Async_accept 2))"
proof -
  have run: "map_option (\<lambda>r. length (listeners (snd r)))
               (exec 0 example_forwarder example_events) = Some 3"
    by (simp add: example_defs model_defs)
  then obtain t fw where r: "exec 0 example_forwarder example_events = Some (t, fw)"
    and n: "length (listeners fw) = 3"
    by auto
  have l: "2 < length (listeners fw)" using n by simp
  from accept_loop[OF example_forwarder_built r l, of 6 connection_reset success]
    example_forwarder_built r l
  show ?thesis by auto
qed

lemma shut_step:
  assumes "shut fw" and "step now e fw = Some fw'"
  shows "shut fw' \<and> rejections fw' = rejections fw + (if is_accept e then 1 else 0)"
proof (cases e)
  case (Completed i c)
  with assms show ?thesis by (simp add: shut_def)
next
  case (Accepted l ec nd)
  with assms(2) have l: "l < length (listeners fw)" "accept_outstanding (listeners fw ! l)"
    by (auto split: if_splits)
  from assms(1) l(1) have full: "l_max_connections (listeners fw ! l) \<le> active_connections fw"
    by (simp add: shut_def list_all_length)
  show ?thesis
  proof (cases "ec = success")
    case True
    with reject_step[OF l full, of now nd] assms Accepted show ?thesis
      by (auto simp: shut_def rejections_def)
  next
    case False
    with error_step[OF l False, of now nd] assms Accepted show ?thesis
      by (auto simp: shut_def rejections_def)
  qed
qed

lemma shut_exec:
  assumes "shut fw" and "exec now fw evs = Some (t, fw')"
  shows "shut fw' \<and> rejections fw' = rejections fw + accepts evs"
  using assms
proof (induction evs arbitrary: now fw)
  case Nil
  then show ?case by (simp add: accepts_def)
next
  case (Cons ev evs)
  obtain t1 e where ev: "ev = (t1, e)" by (cases ev)
  with Cons.prems(2) obtain fw1 where fw1: "step t1 e fw = Some fw1" "exec t1 fw1 evs = Some (t, fw')"
    by (auto split: if_splits option.splits)
  from shut_step[OF Cons.prems(1) fw1(1)]
  have s1: "shut fw1" "rejections fw1 = rejections fw + (if is_accept e then 1 else 0)"
    by simp_all
  from Cons.IH[OF s1(1) fw1(2)] s1(2) ev show ?case
    by (simp add: accepts_def)
qed

text \<open>
  C10: with \<^verbatim>\<open>max_connections\<close> 0, in every reachable state no session was ever
  constructed, the counter is 0, and every connection that was accepted was closed by the
  accept handler.
\<close>

theorem zero_ceiling:
  assumes "TCPForwarder env t0 cfg = Inr fw0" and "cfg_max_connections cfg = 0"
    and "exec t0 fw0 evs = Some (t, fw)"
  shows "sessions fw = [] \<and> active_connections fw = 0 \<and> rejections fw = accepts evs"
proof -
  from TCPForwarder_started[OF assms(1)] assms(2)
  have "shut fw0" "rejections fw0 = 0"
    by (simp_all add: started_def shut_def list_all_iff)
  with shut_exec[OF this(1) assms(3)] show ?thesis by (simp add: shut_def)
qed

theorem zero_ceiling_witness:
  "cfg_max_connections zero_config = 0
   \<and> (\<exists>fw0 t fw. TCPForwarder permissive 0 zero_config = Inr fw0
         \<and> exec 0 fw0 zero_events = Some (t, fw)
         \<and> accepts zero_events = 3 \<and> rejections fw = 3
         \<and> sessions fw = [] \<and> active_connections fw = 0)"
proof -
  have z: "cfg_max_connections zero_config = 0" by (simp add: zero_config_def)
  have "\<exists>fw0. TCPForwarder permissive 0 zero_config = Inr fw0
          \<and> exec 0 fw0 zero_events \<noteq> None"
    by (simp add: zero_config_def zero_events_def example_defs model_defs)
  then obtain fw0 t fw where r: "TCPForwarder permissive 0 zero_config = Inr fw0"
    "exec 0 fw0 zero_events = Some (t, fw)"
    by auto
  have a: "accepts zero_events = 3" by (simp add: accepts_def zero_events_def)
  from zero_ceiling[OF r(1) z r(2)] a z r show ?thesis by auto
qed

section \<open>The counter stays in range\<close>

text \<open>
  \<^verbatim>\<open>active_connections_\<close> is a \<^verbatim>\<open>std::atomic<int>\<close> and is modelled as an integer
  without wrap-around: in every reachable state it lies between 0 and the configured
  ceiling, itself an \<^verbatim>\<open>int\<close>, so neither the increment nor the decrement can overflow.
\<close>

lemma step_bounded:
  assumes "accounted fw" and "listening cfg fw"
    and "active_connections fw \<le> max 0 (cfg_max_connections cfg)"
    and "step now e fw = Some fw'"
  shows "active_connections fw' \<le> max 0 (cfg_max_connections cfg)"
proof (cases e)
  case (Accepted l ec nd)
  with assms(4) have l: "l < length (listeners fw)"
    and fw': "fw' = on_accept now l ec nd (accept_completed l fw)"
    by (auto split: if_splits)
  let ?fw = "accept_completed l fw"
  from assms(2) l have mc: "l_max_connections (listeners ?fw ! l) = cfg_max_connections cfg"
    by (simp add: listening_def list_all_length accept_completed_def)
  have a: "active_connections ?fw = active_connections fw"
    by (simp add: accept_completed_def)
  show ?thesis
  proof (cases "ec = success")
    case False
    with assms(3) a show ?thesis
      by (simp add: fw' on_accept_error plz_accept_def femit_def flog_def)
  next
    case True
    show ?thesis
    proof (cases "l_max_connections (listeners ?fw ! l) \<le> active_connections ?fw")
      case True
      with \<open>ec = success\<close> assms(3) a show ?thesis
        by (simp add: fw' on_accept_reject plz_accept_def femit_def flog_def)
    next
      case False
      obtain s a' where sp: "spawn now (l_target_endpoint (listeners ?fw ! l)) (l_buffer_size (listeners ?fw ! l))
          (l_tcp_no_delay (listeners ?fw ! l)) (l_retry_attempts (listeners ?fw ! l))
          (l_retry_delay (listeners ?fw ! l)) nd (active_connections ?fw) = (s, a')"
        by (meson surj_pair)
      from spawn_alive[OF sp] have "a' \<le> active_connections ?fw + 1" by simp
      with False mc have "a' \<le> max 0 (cfg_max_connections cfg)" by simp
      then show ?thesis
        using \<open>ec = success\<close> on_accept_admit[OF False sp]
        by (simp add: fw' plz_accept_def femit_def flog_def)
    qed
  qed
next
  case (Completed i c)
  with assms(4) obtain s' a' where i: "i < length (sessions fw)"
    and d: "deliver now c (sessions fw ! i, active_connections fw) = Some (s', a')"
    and fw': "fw' = fw\<lparr>sessions := (sessions fw)[i := s'], active_connections := a'\<rparr>"
    by (auto split: if_splits option.splits)
  from assms(1) i have "destroyed (sessions fw ! i) \<longleftrightarrow> pending (sessions fw ! i) = []"
    by (simp add: accounted_def list_all_length)
  with d have "\<not> destroyed (sessions fw ! i)" using deliver_dead by fastforce
  from deliver_alive[OF d this] have "a' \<le> active_connections fw" by simp
  with assms(3) show ?thesis by (simp add: fw')
qed

lemma exec_bounded:
  assumes "accounted fw" and "listening cfg fw"
    and "active_connections fw \<le> max 0 (cfg_max_connections cfg)"
    and "exec now fw evs = Some (t, fw')"
  shows "active_connections fw' \<le> max 0 (cfg_max_connections cfg)"
  using assms
proof (induction evs arbitrary: now fw)
  case Nil
  then show ?case by simp
next
  case (Cons ev evs)
  obtain t1 e where ev: "ev = (t1, e)" by (cases ev)
  with Cons.prems(4) obtain fw1 where fw1: "step t1 e fw = Some fw1" "exec t1 fw1 evs = Some (t, fw')"
    by (auto split: if_splits option.splits)
  have "listening cfg fw1"
    using Cons.prems(2) step_listeners[OF fw1(1)] by (simp add: listening_def)
  with step_accounted[OF Cons.prems(1) fw1(1)] step_bounded[OF Cons.prems(1,2,3) fw1(1)]
    Cons.IH fw1(2)
  show ?case by blast
qed

lemma counter_within_ceiling:
  assumes "TCPForwarder env t0 cfg = Inr fw0" and "exec t0 fw0 evs = Some (t, fw)"
  shows "0 \<le> active_connections fw \<and> active_connections fw \<le> max 0 (cfg_max_connections cfg)"
proof -
  note st = TCPForwarder_started[OF assms(1)]
  from st have "active_connections fw0 \<le> max 0 (cfg_max_connections cfg)"
    by (simp add: started_def)
  from exec_bounded[OF started_accounted[OF st] started_listening[OF st] this assms(2)]
  have "active_connections fw \<le> max 0 (cfg_max_connections cfg)" .
  moreover have "0 \<le> active_connections fw"
    using reachable_accounted[OF assms] by (simp add: accounted_def live_count)
  ultimately show ?thesis by simp
qed

section \<open>What each function of Session does to the fields\<close>

lemma update_fields [simp]:
  "connect_times (s\<lparr>in_socket := k\<rparr>) = connect_times s"
  "connect_times (s\<lparr>out_socket := k\<rparr>) = connect_times s"
  "connect_times (s\<lparr>current_attempt := n\<rparr>) = connect_times s"
  "connect_times (s\<lparr>timer := t\<rparr>) = connect_times s"
  "connect_times (s\<lparr>pending := ops\<rparr>) = connect_times s"
  "connect_times (s\<lparr>destroyed := b\<rparr>) = connect_times s"
  "connect_times (s\<lparr>data_in := bytes\<rparr>) = connect_times s"
  "connect_times (s\<lparr>data_out := bytes\<rparr>) = connect_times s"
  "entered_forwarding (s\<lparr>in_socket := k\<rparr>) = entered_forwarding s"
  "entered_forwarding (s\<lparr>out_socket := k\<rparr>) = entered_forwarding s"
  "entered_forwarding (s\<lparr>current_attempt := n\<rparr>) = entered_forwarding s"
  "entered_forwarding (s\<lparr>timer := t\<rparr>) = entered_forwarding s"
  "entered_forwarding (s\<lparr>pending := ops\<rparr>) = entered_forwarding s"
  "entered_forwarding (s\<lparr>destroyed := b\<rparr>) = entered_forwarding s"
  "entered_forwarding (s\<lparr>data_in := bytes\<rparr>) = entered_forwarding s"
  "entered_forwarding (s\<lparr>data_out := bytes\<rparr>) = entered_forwarding s"
  by (simp_all add: connect_times_def entered_forwarding_def)

lemma emit_fields [simp]:
  "in_socket (emit now a s) = in_socket s"
  "out_socket (emit now a s) = out_socket s"
  "pending (emit now a s) = pending s"
  "destroyed (emit now a s) = destroyed s"
  "current_attempt (emit now a s) = current_attempt s"
  "retry_attempts (emit now a s) = retry_attempts s"
  "retry_delay (emit now a s) = retry_delay s"
  "timer (emit now a s) = timer s"
  "data_in (emit now a s) = data_in s"
  "data_out (emit now a s) = data_out s"
  "target_endpoint (emit now a s) = target_endpoint s"
  "tcp_no_delay (emit now a s) = tcp_no_delay s"
  "connect_times (emit now a s) = connect_times s @ (if is_connect a then [now] else [])"
  "entered_forwarding (emit now a s) = (entered_forwarding s \<or> is_copy a)"
  by (simp_all add: emit_def connect_times_def entered_forwarding_def)

lemma log_fields [simp]:
  "in_socket (log now lv m s) = in_socket s"
  "out_socket (log now lv m s) = out_socket s"
  "pending (log now lv m s) = pending s"
  "destroyed (log now lv m s) = destroyed s"
  "current_attempt (log now lv m s) = current_attempt s"
  "retry_attempts (log now lv m s) = retry_attempts s"
  "retry_delay (log now lv m s) = retry_delay s"
  "timer (log now lv m s) = timer s"
  "data_in (log now lv m s) = data_in s"
  "data_out (log now lv m s) = data_out s"
  "target_endpoint (log now lv m s) = target_endpoint s"
  "tcp_no_delay (log now lv m s) = tcp_no_delay s"
  "connect_times (log now lv m s) = connect_times s"
  "entered_forwarding (log now lv m s) = entered_forwarding s"
  by (simp_all add: log_def)

lemma issue_fields [simp]:
  "in_socket (issue op s) = in_socket s"
  "out_socket (issue op s) = out_socket s"
  "pending (issue op s) = pending s @ [op]"
  "destroyed (issue op s) = destroyed s"
  "current_attempt (issue op s) = current_attempt s"
  "retry_attempts (issue op s) = retry_attempts s"
  "retry_delay (issue op s) = retry_delay s"
  "timer (issue op s) = timer s"
  "data_in (issue op s) = data_in s"
  "data_out (issue op s) = data_out s"
  "connect_times (issue op s) = connect_times s"
  "entered_forwarding (issue op s) = entered_forwarding s"
  by (simp_all add: issue_def)

lemma completed_fields [simp]:
  "in_socket (completed op s) = in_socket s"
  "out_socket (completed op s) = out_socket s"
  "pending (completed op s) = remove1 op (pending s)"
  "destroyed (completed op s) = destroyed s"
  "current_attempt (completed op s) = current_attempt s"
  "retry_attempts (completed op s) = retry_attempts s"
  "retry_delay (completed op s) = retry_delay s"
  "timer (completed op s) = timer s"
  "data_in (completed op s) = data_in s"
  "data_out (completed op s) = data_out s"
  "connect_times (completed op s) = connect_times s"
  "entered_forwarding (completed op s) = entered_forwarding s"
  by (simp_all add: completed_def)

lemma attempt_connection_fields [simp]:
  "in_socket (attempt_connection now s) = in_socket s"
  "out_socket (attempt_connection now s)
     = (if retry_attempts s \<le> current_attempt s then out_socket s else opened (out_socket s))"
  "pending (attempt_connection now s)
     = (if retry_attempts s \<le> current_attempt s then pending s else pending s @ [Connect_op])"
  "destroyed (attempt_connection now s) = destroyed s"
  "current_attempt (attempt_connection now s) = current_attempt s"
  "retry_attempts (attempt_connection now s) = retry_attempts s"
  "retry_delay (attempt_connection now s) = retry_delay s"
  "timer (attempt_connection now s) = timer s"
  "data_in (attempt_connection now s) = data_in s"
  "data_out (attempt_connection now s) = data_out s"
  "connect_times (attempt_connection now s)
     = (if retry_attempts s \<le> current_attempt s then connect_times s else connect_times s @ [now])"
  "entered_forwarding (attempt_connection now s) = entered_forwarding s"
  by (simp_all add: attempt_connection_def Let_def)

lemma start_fields [simp]:
  "in_socket (start now s) = in_socket s"
  "out_socket (start now s)
     = (if retry_attempts s \<le> current_attempt s then out_socket s else opened (out_socket s))"
  "pending (start now s)
     = (if retry_attempts s \<le> current_attempt s then pending s else pending s @ [Connect_op])"
  "destroyed (start now s) = destroyed s"
  "current_attempt (start now s) = current_attempt s"
  "retry_attempts (start now s) = retry_attempts s"
  "retry_delay (start now s) = retry_delay s"
  "timer (start now s) = timer s"
  "data_in (start now s) = data_in s"
  "data_out (start now s) = data_out s"
  "connect_times (start now s)
     = (if retry_attempts s \<le> current_attempt s then connect_times s else connect_times s @ [now])"
  "entered_forwarding (start now s) = entered_forwarding s"
  by (simp_all add: start_def)

lemma forward_data_fields [simp]:
  "in_socket (forward_data now d s) = in_socket s"
  "out_socket (forward_data now d s) = out_socket s"
  "pending (forward_data now d s) = pending s @ [Read_op d]"
  "destroyed (forward_data now d s) = destroyed s"
  "current_attempt (forward_data now d s) = current_attempt s"
  "retry_attempts (forward_data now d s) = retry_attempts s"
  "retry_delay (forward_data now d s) = retry_delay s"
  "timer (forward_data now d s) = timer s"
  "data_in (forward_data now d s) = data_in s"
  "data_out (forward_data now d s) = data_out s"
  "connect_times (forward_data now d s) = connect_times s"
  "entered_forwarding (forward_data now d s) = True"
  by (simp_all add: forward_data_def)

lemma close_sockets_fields [simp]:
  "in_socket (close_sockets now s) = close (in_socket s)"
  "out_socket (close_sockets now s) = close (out_socket s)"
  "pending (close_sockets now s) = pending s"
  "destroyed (close_sockets now s) = destroyed s"
  "current_attempt (close_sockets now s) = current_attempt s"
  "retry_attempts (close_sockets now s) = retry_attempts s"
  "retry_delay (close_sockets now s) = retry_delay s"
  "timer (close_sockets now s) = timer s"
  "data_in (close_sockets now s) = data_in s"
  "data_out (close_sockets now s) = data_out s"
  "connect_times (close_sockets now s) = connect_times s"
  "entered_forwarding (close_sockets now s) = entered_forwarding s"
  by (simp_all add: close_sockets_def Let_def)

lemma on_connect_fields [simp]:
  "in_socket (on_connect now ec nd s) = in_socket s"
  "out_socket (on_connect now ec nd s) = out_socket s"
  "pending (on_connect now ec nd s)
     = (if ec = success then pending s @ [Read_op In_to_out, Read_op Out_to_in]
        else pending s @ [Wait_op])"
  "destroyed (on_connect now ec nd s) = destroyed s"
  "current_attempt (on_connect now ec nd s)
     = (if ec = success then current_attempt s else current_attempt s + 1)"
  "retry_attempts (on_connect now ec nd s) = retry_attempts s"
  "retry_delay (on_connect now ec nd s) = retry_delay s"
  "timer (on_connect now ec nd s) = (if ec = success then timer s else now + retry_delay s)"
  "data_in (on_connect now ec nd s) = data_in s"
  "data_out (on_connect now ec nd s) = data_out s"
  "connect_times (on_connect now ec nd s) = connect_times s"
  "entered_forwarding (on_connect now ec nd s) = (entered_forwarding s \<or> ec = success)"
  by (simp_all add: on_connect_def plz_forward_def Let_def
     )

lemma on_wait_fields [simp]:
  "in_socket (on_wait now ec s) = in_socket s"
  "out_socket (on_wait now ec s)
     = (if retry_attempts s \<le> current_attempt s then out_socket s else opened (out_socket s))"
  "pending (on_wait now ec s)
     = (if retry_attempts s \<le> current_attempt s then pending s else pending s @ [Connect_op])"
  "destroyed (on_wait now ec s) = destroyed s"
  "current_attempt (on_wait now ec s) = current_attempt s"
  "retry_attempts (on_wait now ec s) = retry_attempts s"
  "retry_delay (on_wait now ec s) = retry_delay s"
  "timer (on_wait now ec s) = timer s"
  "data_in (on_wait now ec s) = data_in s"
  "data_out (on_wait now ec s) = data_out s"
  "connect_times (on_wait now ec s)
     = (if retry_attempts s \<le> current_attempt s then connect_times s else connect_times s @ [now])"
  "entered_forwarding (on_wait now ec s) = entered_forwarding s"
  by (simp_all add: on_wait_def)

lemma on_read_fields [simp]:
  "in_socket (on_read now d ec n s)
     = (if ec = success \<or> ec = operation_aborted then in_socket s else close (in_socket s))"
  "out_socket (on_read now d ec n s)
     = (if ec = success \<or> ec = operation_aborted then out_socket s else close (out_socket s))"
  "pending (on_read now d ec n s)
     = (if ec = success then pending s @ [Write_op d (take n (buffer d s))] else pending s)"
  "destroyed (on_read now d ec n s) = destroyed s"
  "current_attempt (on_read now d ec n s) = current_attempt s"
  "retry_attempts (on_read now d ec n s) = retry_attempts s"
  "retry_delay (on_read now d ec n s) = retry_delay s"
  "timer (on_read now d ec n s) = timer s"
  "data_in (on_read now d ec n s) = data_in s"
  "data_out (on_read now d ec n s) = data_out s"
  "connect_times (on_read now d ec n s) = connect_times s"
  "entered_forwarding (on_read now d ec n s) = (entered_forwarding s \<or> ec = success)"
  by (simp_all add: on_read_def Let_def buffer_def split: direction.splits)

lemma on_write_fields [simp]:
  "in_socket (on_write now d ec s)
     = (if ec = success \<or> ec = operation_aborted then in_socket s else close (in_socket s))"
  "out_socket (on_write now d ec s)
     = (if ec = success \<or> ec = operation_aborted then out_socket s else close (out_socket s))"
  "pending (on_write now d ec s) = (if ec = success then pending s @ [Read_op d] else pending s)"
  "destroyed (on_write now d ec s) = destroyed s"
  "current_attempt (on_write now d ec s) = current_attempt s"
  "retry_attempts (on_write now d ec s) = retry_attempts s"
  "retry_delay (on_write now d ec s) = retry_delay s"
  "timer (on_write now d ec s) = timer s"
  "data_in (on_write now d ec s) = data_in s"
  "data_out (on_write now d ec s) = data_out s"
  "connect_times (on_write now d ec s) = connect_times s"
  "entered_forwarding (on_write now d ec s) = (entered_forwarding s \<or> ec = success)"
  by (simp_all add: on_write_def)

lemma read_into_fields [simp]:
  "in_socket (read_into d bytes s)
     = (case d of In_to_out \<Rightarrow> (in_socket s)\<lparr>received := received (in_socket s) @ bytes\<rparr>
               | Out_to_in \<Rightarrow> in_socket s)"
  "out_socket (read_into d bytes s)
     = (case d of In_to_out \<Rightarrow> out_socket s
               | Out_to_in \<Rightarrow> (out_socket s)\<lparr>received := received (out_socket s) @ bytes\<rparr>)"
  "pending (read_into d bytes s) = pending s"
  "destroyed (read_into d bytes s) = destroyed s"
  "current_attempt (read_into d bytes s) = current_attempt s"
  "retry_attempts (read_into d bytes s) = retry_attempts s"
  "retry_delay (read_into d bytes s) = retry_delay s"
  "timer (read_into d bytes s) = timer s"
  "buffer d (read_into d bytes s) = bytes @ drop (length bytes) (buffer d s)"
  "connect_times (read_into d bytes s) = connect_times s"
  "entered_forwarding (read_into d bytes s) = entered_forwarding s"
  by (simp_all add: read_into_def buffer_def
      split: direction.splits)

lemma written_to_fields [simp]:
  "in_socket (written_to d bytes s)
     = (case d of In_to_out \<Rightarrow> in_socket s
               | Out_to_in \<Rightarrow> (in_socket s)\<lparr>sent := sent (in_socket s) @ bytes\<rparr>)"
  "out_socket (written_to d bytes s)
     = (case d of In_to_out \<Rightarrow> (out_socket s)\<lparr>sent := sent (out_socket s) @ bytes\<rparr>
               | Out_to_in \<Rightarrow> out_socket s)"
  "pending (written_to d bytes s) = pending s"
  "destroyed (written_to d bytes s) = destroyed s"
  "current_attempt (written_to d bytes s) = current_attempt s"
  "retry_attempts (written_to d bytes s) = retry_attempts s"
  "retry_delay (written_to d bytes s) = retry_delay s"
  "timer (written_to d bytes s) = timer s"
  "connect_times (written_to d bytes s) = connect_times s"
  "entered_forwarding (written_to d bytes s) = entered_forwarding s"
  by (simp_all add: written_to_def split: direction.splits)

lemma Session_dtor_fields [simp]:
  "in_socket (fst (Session_dtor now sa)) = close (in_socket (fst sa))"
  "out_socket (fst (Session_dtor now sa)) = close (out_socket (fst sa))"
  "pending (fst (Session_dtor now sa)) = pending (fst sa)"
  "destroyed (fst (Session_dtor now sa)) = True"
  "current_attempt (fst (Session_dtor now sa)) = current_attempt (fst sa)"
  "retry_attempts (fst (Session_dtor now sa)) = retry_attempts (fst sa)"
  "retry_delay (fst (Session_dtor now sa)) = retry_delay (fst sa)"
  "timer (fst (Session_dtor now sa)) = timer (fst sa)"
  "connect_times (fst (Session_dtor now sa)) = connect_times (fst sa)"
  "entered_forwarding (fst (Session_dtor now sa)) = entered_forwarding (fst sa)"
  "snd (Session_dtor now sa) = snd sa - 1"
  by (simp_all add: Session_dtor_def Let_def)

lemma Session_fields [simp]:
  "in_socket (fst (Session now k target bs nd ra rd ec a)) = k"
  "out_socket (fst (Session now k target bs nd ra rd ec a)) = fresh_socket"
  "pending (fst (Session now k target bs nd ra rd ec a)) = []"
  "destroyed (fst (Session now k target bs nd ra rd ec a)) = False"
  "current_attempt (fst (Session now k target bs nd ra rd ec a)) = 0"
  "retry_attempts (fst (Session now k target bs nd ra rd ec a)) = ra"
  "retry_delay (fst (Session now k target bs nd ra rd ec a)) = rd"
  "connect_times (fst (Session now k target bs nd ra rd ec a)) = []"
  "entered_forwarding (fst (Session now k target bs nd ra rd ec a)) = False"
  "snd (Session now k target bs nd ra rd ec a) = a + 1"
  by (simp_all add: Session_def Let_def connect_times_def entered_forwarding_def emit_def log_def)

section \<open>Invariants of a session\<close>

lemma handler_phase:
  assumes "phase_inv s" and "handler now c s = Some s'"
  shows "phase_inv s'"
proof (cases c)
  case (Connected ec nd)
  with assms show ?thesis
    by (auto simp: phase_inv_def split: if_splits)
next
  case (Timer_fired ec)
  with assms show ?thesis
    by (auto simp: phase_inv_def split: if_splits)
next
  case (Read_done d ec bytes)
  with assms show ?thesis
    by (auto simp: phase_inv_def split: if_splits dest: notin_set_remove1)
next
  case (Write_done d ec n)
  with assms obtain bytes where w: "write_of d (pending s) = Some bytes"
    by (auto split: option.splits)
  from write_of_mem[OF w] assms Write_done w show ?thesis
    by (auto simp: phase_inv_def split: if_splits dest: notin_set_remove1)
qed


lemma ops_of_direction: "op \<in> set (ops_of d s) \<Longrightarrow> op_direction op = Some d"
  by (simp add: ops_of_def)

lemma relayed_cases:
  "relayed d s \<longleftrightarrow>
     (ops_of d s = [] \<and> prefix (sent (destination d s)) (received (source d s)))
     \<or> (ops_of d s = [Read_op d] \<and> sent (destination d s) = received (source d s))
     \<or> (\<exists>bytes. ops_of d s = [Write_op d bytes]
            \<and> received (source d s) = sent (destination d s) @ bytes)"
proof (cases "ops_of d s")
  case Nil
  then show ?thesis by (simp add: relayed_def)
next
  case (Cons op ops)
  then have dir: "op_direction op = Some d"
    using ops_of_direction[of op d s] by simp
  show ?thesis
  proof (cases ops)
    case Nil
    with Cons dir show ?thesis
      by (cases op) (auto simp: relayed_def)
  next
    case (Cons op2 ops2)
    with \<open>ops_of d s = op # ops\<close> show ?thesis
      by (cases op) (auto simp: relayed_def)
  qed
qed


lemma relayed_start:
  assumes "ops_of d s' = [Read_op d]"
    and "sent (destination d s') = received (source d s')"
  shows "relayed d s'"
  using assms by (simp add: relayed_cases)

lemma handler_relay_connect:
  assumes "phase_inv s" and "relay_inv s" and "handler now (Connected ec nd) s = Some s'"
  shows "relay_inv s'"
proof -
  from assms(3) have c: "Connect_op \<in> set (pending s)"
    and s': "s' = on_connect now ec nd (completed Connect_op s)"
    by (auto split: if_splits)
  from assms(1) c have ne: "\<not> entered_forwarding s" and p: "pending s = [Connect_op]"
    by (auto simp: phase_inv_def split: if_splits)
  from assms(2) ne have eq: "sent (out_socket s) = received (in_socket s)"
    "sent (in_socket s) = received (out_socket s)"
    by (simp_all add: relay_inv_def)
  show ?thesis
  proof (cases "ec = success")
    case True
    have "relayed In_to_out s'" "relayed Out_to_in s'"
      using eq p True
      by (auto intro!: relayed_start simp: s' ops_of_def source_def destination_def)
    then show ?thesis using True by (simp add: relay_inv_def s')
  next
    case False
    then show ?thesis using eq ne by (simp add: relay_inv_def s')
  qed
qed

lemma handler_relay_timer:
  assumes "phase_inv s" and "relay_inv s" and "handler now (Timer_fired ec) s = Some s'"
  shows "relay_inv s'"
proof -
  from assms(3) have c: "Wait_op \<in> set (pending s)"
    and s': "s' = on_wait now ec (completed Wait_op s)"
    by (auto split: if_splits)
  from assms(1) c have ne: "\<not> entered_forwarding s"
    by (auto simp: phase_inv_def split: if_splits)
  with assms(2) show ?thesis
    by (simp add: relay_inv_def s' opened_def)
qed


lemma close_data [simp]:
  "received (close k) = received k"
  "sent (close k) = sent k"
  by (simp_all add: close_def)

lemma read_effect:
  assumes "handler now (Read_done d ec bytes) s = Some s'"
  shows "ops_of d s' = remove1 (Read_op d) (ops_of d s) @ (if ec = success then [Write_op d bytes] else [])"
    and "d2 \<noteq> d \<Longrightarrow> ops_of d2 s' = ops_of d2 s"
    and "received (source d s') = received (source d s) @ bytes"
    and "sent (destination d s') = sent (destination d s)"
    and "d2 \<noteq> d \<Longrightarrow> received (source d2 s') = received (source d2 s)"
    and "d2 \<noteq> d \<Longrightarrow> sent (destination d2 s') = sent (destination d2 s)"
proof -
  from assms have len: "length bytes \<le> length (buffer d s)"
    and s': "s' = on_read now d ec (length bytes) (read_into d bytes (completed (Read_op d) s))"
    by (auto split: if_splits)
  have "buffer d (completed (Read_op d) s) = buffer d s"
    by (simp add: buffer_def split: direction.splits)
  then have payload: "take (length bytes) (buffer d (read_into d bytes (completed (Read_op d) s))) = bytes"
    by simp
  show "ops_of d s' = remove1 (Read_op d) (ops_of d s) @ (if ec = success then [Write_op d bytes] else [])"
    by (simp add: s' ops_of_def payload filter_remove1)
  show "d2 \<noteq> d \<Longrightarrow> ops_of d2 s' = ops_of d2 s"
    by (simp add: s' ops_of_def filter_remove1)
  show "received (source d s') = received (source d s) @ bytes"
    by (cases d) (simp_all add: s' source_def)
  show "sent (destination d s') = sent (destination d s)"
    by (cases d) (simp_all add: s' destination_def)
  show "d2 \<noteq> d \<Longrightarrow> received (source d2 s') = received (source d2 s)"
    by (cases d; cases d2) (simp_all add: s' source_def)
  show "d2 \<noteq> d \<Longrightarrow> sent (destination d2 s') = sent (destination d2 s)"
    by (cases d; cases d2) (simp_all add: s' destination_def)
qed

lemma write_effect:
  assumes "handler now (Write_done d ec n) s = Some s'"
  shows "\<exists>bytes. Write_op d bytes \<in> set (ops_of d s) \<and> n \<le> length bytes
           \<and> (ec = success \<longrightarrow> n = length bytes)
           \<and> ops_of d s' = remove1 (Write_op d bytes) (ops_of d s) @ (if ec = success then [Read_op d] else [])
           \<and> sent (destination d s') = sent (destination d s) @ take n bytes"
    and "d2 \<noteq> d \<Longrightarrow> ops_of d2 s' = ops_of d2 s"
    and "received (source d s') = received (source d s)"
    and "d2 \<noteq> d \<Longrightarrow> received (source d2 s') = received (source d2 s)"
    and "d2 \<noteq> d \<Longrightarrow> sent (destination d2 s') = sent (destination d2 s)"
proof -
  from assms obtain bytes where w: "write_of d (pending s) = Some bytes"
    and n: "n \<le> length bytes" "ec = success \<longrightarrow> n = length bytes"
    and s': "s' = on_write now d ec (written_to d (take n bytes) (completed (Write_op d bytes) s))"
    by (auto split: option.splits if_splits)
  from write_of_mem[OF w] have mem: "Write_op d bytes \<in> set (ops_of d s)"
    by (simp add: ops_of_def)
  have ops: "ops_of d s' = remove1 (Write_op d bytes) (ops_of d s) @ (if ec = success then [Read_op d] else [])"
    by (simp add: s' ops_of_def filter_remove1)
  have snt: "sent (destination d s') = sent (destination d s) @ take n bytes"
    by (cases d) (simp_all add: s' destination_def)
  from mem n ops snt
  show "\<exists>bytes. Write_op d bytes \<in> set (ops_of d s) \<and> n \<le> length bytes
           \<and> (ec = success \<longrightarrow> n = length bytes)
           \<and> ops_of d s' = remove1 (Write_op d bytes) (ops_of d s) @ (if ec = success then [Read_op d] else [])
           \<and> sent (destination d s') = sent (destination d s) @ take n bytes"
    by blast
  show "d2 \<noteq> d \<Longrightarrow> ops_of d2 s' = ops_of d2 s"
    by (simp add: s' ops_of_def filter_remove1)
  show "received (source d s') = received (source d s)"
    by (cases d) (simp_all add: s' source_def)
  show "d2 \<noteq> d \<Longrightarrow> received (source d2 s') = received (source d2 s)"
    by (cases d; cases d2) (simp_all add: s' source_def)
  show "d2 \<noteq> d \<Longrightarrow> sent (destination d2 s') = sent (destination d2 s)"
    by (cases d; cases d2) (simp_all add: s' destination_def)
qed


lemma relayed_frame:
  assumes "ops_of d s' = ops_of d s"
    and "received (source d s') = received (source d s)"
    and "sent (destination d s') = sent (destination d s)"
  shows "relayed d s' = relayed d s"
  using assms by (simp add: relayed_cases)

lemma handler_entered:
  "handler now c s = Some s' \<Longrightarrow> entered_forwarding s \<Longrightarrow> entered_forwarding s'"
  by (cases c) (auto split: if_splits option.splits)

lemma copy_needs_forwarding:
  assumes "phase_inv s" and "op \<in> set (pending s)" and "op_direction op = Some d"
  shows "entered_forwarding s"
  using assms by (auto simp: phase_inv_def split: if_splits)

lemma relayed_both:
  assumes "relayed d s'" and "\<And>d2. d2 \<noteq> d \<Longrightarrow> relayed d2 s'"
  shows "relayed In_to_out s' \<and> relayed Out_to_in s'"
  using assms by (cases d) auto

lemma handler_relay_read:
  assumes "phase_inv s" and "relay_inv s" and "handler now (Read_done d ec bytes) s = Some s'"
  shows "relay_inv s'"
proof -
  from assms(3) have mem: "Read_op d \<in> set (pending s)" and nil: "ec \<noteq> success \<longrightarrow> bytes = []"
    by (auto split: if_splits)
  from copy_needs_forwarding[OF assms(1) mem] have ent: "entered_forwarding s" by simp
  with assms(2) have rel: "relayed In_to_out s" "relayed Out_to_in s"
    by (simp_all add: relay_inv_def)
  then have reld: "relayed d s" and relo: "\<And>d2. relayed d2 s"
    by (cases d, simp_all) (case_tac d2, simp_all)
  from mem have "Read_op d \<in> set (ops_of d s)" by (simp add: ops_of_def)
  with reld have ops: "ops_of d s = [Read_op d]"
    and eq: "sent (destination d s) = received (source d s)"
    by (auto simp: relayed_cases)
  note eff = read_effect[OF assms(3)]
  have "relayed d s'"
    using eff(1,3,4) ops eq nil by (auto simp: relayed_cases)
  moreover have "relayed d2 s'" if "d2 \<noteq> d" for d2
    using relayed_frame[OF eff(2)[OF that] eff(5)[OF that] eff(6)[OF that]] relo by simp
  ultimately have "relayed In_to_out s' \<and> relayed Out_to_in s'"
    by (rule relayed_both)
  with handler_entered[OF assms(3) ent] show ?thesis by (simp add: relay_inv_def)
qed

lemma handler_relay_write:
  assumes "phase_inv s" and "relay_inv s" and "handler now (Write_done d ec n) s = Some s'"
  shows "relay_inv s'"
proof -
  note eff = write_effect[OF assms(3)]
  from eff(1) obtain bytes where mem: "Write_op d bytes \<in> set (ops_of d s)"
    and n: "n \<le> length bytes" "ec = success \<longrightarrow> n = length bytes"
    and ops': "ops_of d s' = remove1 (Write_op d bytes) (ops_of d s) @ (if ec = success then [Read_op d] else [])"
    and snt: "sent (destination d s') = sent (destination d s) @ take n bytes"
    by blast
  from mem have "Write_op d bytes \<in> set (pending s)" by (simp add: ops_of_def)
  from copy_needs_forwarding[OF assms(1) this] have ent: "entered_forwarding s" by simp
  with assms(2) have rel: "relayed In_to_out s" "relayed Out_to_in s"
    by (simp_all add: relay_inv_def)
  then have reld: "relayed d s" and relo: "\<And>d2. relayed d2 s"
    by (cases d, simp_all) (case_tac d2, simp_all)
  from mem reld have ops: "ops_of d s = [Write_op d bytes]"
    and eq: "received (source d s) = sent (destination d s) @ bytes"
    by (auto simp: relayed_cases)
  have "relayed d s'"
    using ops' snt eff(3) ops eq n by (auto simp: relayed_cases take_is_prefix)
  moreover have "relayed d2 s'" if "d2 \<noteq> d" for d2
    using relayed_frame[OF eff(2)[OF that] eff(4)[OF that] eff(5)[OF that]] relo by simp
  ultimately have "relayed In_to_out s' \<and> relayed Out_to_in s'"
    by (rule relayed_both)
  with handler_entered[OF assms(3) ent] show ?thesis by (simp add: relay_inv_def)
qed

lemma handler_relay:
  assumes "phase_inv s" and "relay_inv s" and "handler now c s = Some s'"
  shows "relay_inv s'"
  using assms
  by (cases c)
    (blast intro: handler_relay_connect handler_relay_timer handler_relay_read handler_relay_write)+


lemma socket_ok_close: "socket_ok ever k \<Longrightarrow> socket_ok ever (close k)"
  by (auto simp: socket_ok_def close_def)

lemma socket_ok_opened: "socket_ok ever k \<Longrightarrow> is_open k \<or> \<not> ever \<Longrightarrow> socket_ok True (opened k)"
  by (auto simp: socket_ok_def opened_def)

lemma handler_sock:
  assumes "phase_inv s" and "sock_inv s" and "handler now c s = Some s'"
  shows "sock_inv s'"
proof (cases c)
  case (Connected ec nd)
  with assms(3) have c: "Connect_op \<in> set (pending s)"
    and s': "s' = on_connect now ec nd (completed Connect_op s)"
    by (auto split: if_splits)
  from assms(1) c have ne: "\<not> entered_forwarding s" and p: "pending s = [Connect_op]"
    by (auto simp: phase_inv_def split: if_splits)
  with assms(2) have a: "attempted s" "socket_ok True (in_socket s)"
    "socket_ok True (out_socket s)" "is_open (out_socket s)"
    by (auto simp: sock_inv_def)
  then show ?thesis
    by (simp add: sock_inv_def s' attempted_def p)
next
  case (Timer_fired ec)
  with assms(3) have c: "Wait_op \<in> set (pending s)"
    and s': "s' = on_wait now ec (completed Wait_op s)"
    by (auto split: if_splits)
  from assms(1) c have ne: "\<not> entered_forwarding s" and p: "pending s = [Wait_op]"
    by (auto simp: phase_inv_def split: if_splits)
  with assms(2) have a: "attempted s" "socket_ok True (in_socket s)"
    "socket_ok True (out_socket s)" "is_open (out_socket s)"
    by (auto simp: sock_inv_def)
  from socket_ok_opened[OF a(3)] a(4) have "socket_ok True (opened (out_socket s))" by simp
  with a ne show ?thesis
    by (simp add: sock_inv_def s' attempted_def p opened_def)
next
  case (Read_done d ec bytes)
  with assms(3) have mem: "Read_op d \<in> set (pending s)"
    and s': "s' = on_read now d ec (length bytes) (read_into d bytes (completed (Read_op d) s))"
    by (auto split: if_splits)
  from copy_needs_forwarding[OF assms(1) mem] have ent: "entered_forwarding s" by simp
  with assms(2) have a: "attempted s" "socket_ok True (in_socket s)" "socket_ok True (out_socket s)"
    by (auto simp: sock_inv_def)
  have io: "socket_ok True (in_socket (read_into d bytes (completed (Read_op d) s)))"
    "socket_ok True (out_socket (read_into d bytes (completed (Read_op d) s)))"
    using a(2,3) by (cases d; simp add: socket_ok_def)+
  from io socket_ok_close[OF io(1)] socket_ok_close[OF io(2)] a(1) ent show ?thesis
    by (simp add: sock_inv_def s' attempted_def)
next
  case (Write_done d ec n)
  with assms(3) obtain bytes where w: "write_of d (pending s) = Some bytes"
    and s': "s' = on_write now d ec (written_to d (take n bytes) (completed (Write_op d bytes) s))"
    by (auto split: option.splits if_splits)
  from copy_needs_forwarding[OF assms(1) write_of_mem[OF w]] have ent: "entered_forwarding s"
    by simp
  with assms(2) have a: "attempted s" "socket_ok True (in_socket s)" "socket_ok True (out_socket s)"
    by (auto simp: sock_inv_def)
  have io: "socket_ok True (in_socket (written_to d (take n bytes) (completed (Write_op d bytes) s)))"
    "socket_ok True (out_socket (written_to d (take n bytes) (completed (Write_op d bytes) s)))"
    using a(2,3) by (cases d; simp add: socket_ok_def)+
  from io socket_ok_close[OF io(1)] socket_ok_close[OF io(2)] a(1) ent show ?thesis
    by (simp add: sock_inv_def s' attempted_def)
qed


lemma close_not_open [simp]: "\<not> is_open (close k)"
  by (simp add: close_def)

lemma dtor_relayed: "relayed d (fst (Session_dtor now sa)) = relayed d (fst sa)"
  by (rule relayed_frame) (cases d; simp add: ops_of_def source_def destination_def)+

lemma release_inv:
  assumes "phase_inv s" and "relay_inv s" and "sock_inv s" and "\<not> destroyed s"
  shows "session_inv a0 (release now (s, a0 + 1))"
proof (cases "pending s = []")
  case False
  with assms show ?thesis by (simp add: session_inv_def release_def)
next
  case True
  have "phase_inv (fst (Session_dtor now (s, a0 + 1)))"
    using assms(1) by (simp add: phase_inv_def)
  moreover have "relay_inv (fst (Session_dtor now (s, a0 + 1)))"
    using assms(2) by (simp add: relay_inv_def dtor_relayed)
  moreover have "sock_inv (fst (Session_dtor now (s, a0 + 1)))"
    using assms(3) True by (auto simp: sock_inv_def attempted_def intro: socket_ok_close)
  ultimately show ?thesis using True by (simp add: session_inv_def release_def)
qed

lemma spawn_inv: "session_inv a0 (spawn now target bs nd ra rd ec a0)"
proof -
  let ?s0 = "fst (Session now accepted_socket target bs nd ra rd ec a0)"
  have sp: "spawn now target bs nd ra rd ec a0 = release now (start now ?s0, a0 + 1)"
    by (simp add: spawn_def Let_def)
  have "phase_inv (start now ?s0)" by (simp add: phase_inv_def)
  moreover have "relay_inv (start now ?s0)"
    by (simp add: relay_inv_def fresh_socket_def accepted_socket_def opened_def)
  moreover have "sock_inv (start now ?s0)"
    by (simp add: sock_inv_def attempted_def socket_ok_def fresh_socket_def accepted_socket_def
        opened_def)
  moreover have "\<not> destroyed (start now ?s0)" by simp
  ultimately show ?thesis unfolding sp by (rule release_inv)
qed

lemma deliver_inv:
  assumes "session_inv a0 sa" and "deliver now c sa = Some sa'"
  shows "session_inv a0 sa'"
proof -
  obtain s a where sa: "sa = (s, a)" by (cases sa)
  from assms(2) sa obtain s1 where h: "handler now c s = Some s1"
    and sa': "sa' = release now (s1, a)"
    by (auto simp: deliver_def split: option.splits)
  from h have "pending s \<noteq> []" using handler_needs_pending by fastforce
  with assms(1) sa have alive: "\<not> destroyed s" and a: "a = a0 + 1"
    by (simp_all add: session_inv_def)
  from assms(1) sa have inv: "phase_inv s" "relay_inv s" "sock_inv s"
    by (simp_all add: session_inv_def)
  have "\<not> destroyed s1" using handler_destroyed[OF h] alive by simp
  with handler_phase[OF inv(1) h] handler_relay[OF inv(1,2) h] handler_sock[OF inv(1,3) h]
  show ?thesis unfolding sa' a by (rule release_inv)
qed

lemma run_inv:
  assumes "session_inv a0 sa" and "run now sa evs = Some (t, sa')"
  shows "session_inv a0 sa'"
  using assms
proof (induction evs arbitrary: now sa)
  case Nil
  then show ?case by simp
next
  case (Cons ev evs)
  obtain t1 c where ev: "ev = (t1, c)" by (cases ev)
  with Cons.prems(2) obtain sa1 where sa1: "deliver t1 c sa = Some sa1" "run t1 sa1 evs = Some (t, sa')"
    by (auto split: if_splits option.splits)
  from deliver_inv[OF Cons.prems(1) sa1(1)] Cons.IH sa1(2) show ?case by blast
qed



lemma read_into_trace [simp]: "trace (read_into d bytes s) = trace s"
  by (cases d) (simp_all add: read_into_def)

lemma completed_trace [simp]: "trace (completed op s) = trace s"
  by (simp add: completed_def)




section \<open>The relay and the teardown\<close>






lemma close_close [simp]: "close (close k) = close k"
  by (simp add: close_def)

lemma socket_ok_closes:
  assumes "socket_ok ever k"
  shows "os_closes k \<le> 1" and "ever \<Longrightarrow> os_closes (close k) = 1"
    and "ever \<Longrightarrow> \<not> is_open k \<Longrightarrow> os_closes k = 1"
  using assms by (auto simp: socket_ok_def close_def)

text \<open>
  C9: at every moment of every run of a session each socket was closed at most once.
  \<^verbatim>\<open>close_sockets\<close>, whenever and however often it is called, leaves each socket
  closed exactly once (the outgoing one if the session ever issued a connect, which every
  session that entered forwarding has): a second call changes neither socket. The
  counter was decremented once if the session is destroyed and not at all otherwise, and
  a destroyed session was closed exactly once per socket and takes no further completion.
\<close>

theorem teardown_once:
  assumes "run t0 (spawn t0 target bs nd ra rd ec a0) evs = Some (t, s, a)"
  shows "os_closes (in_socket s) \<le> 1 \<and> os_closes (out_socket s) \<le> 1
       \<and> os_closes (in_socket (close_sockets now s)) = 1
       \<and> (connect_times s \<noteq> [] \<longrightarrow> os_closes (out_socket (close_sockets now s)) = 1)
       \<and> in_socket (close_sockets now' (close_sockets now s)) = in_socket (close_sockets now s)
       \<and> out_socket (close_sockets now' (close_sockets now s)) = out_socket (close_sockets now s)
       \<and> (entered_forwarding s \<longrightarrow> connect_times s \<noteq> [])
       \<and> a = (if destroyed s then a0 else a0 + 1)
       \<and> (destroyed s \<longrightarrow>
             os_closes (in_socket s) = 1
             \<and> (connect_times s \<noteq> [] \<longrightarrow> os_closes (out_socket s) = 1)
             \<and> (\<forall>now c. deliver now c (s, a) = None))"
proof -
  from run_inv[OF spawn_inv assms] have inv: "session_inv a0 (s, a)" .
  then have si: "socket_ok True (in_socket s)" and so: "socket_ok (attempted s) (out_socket s)"
    and ent: "entered_forwarding s \<longrightarrow> attempted s"
    and life: "destroyed s \<longleftrightarrow> pending s = []"
    and shut: "destroyed s \<longrightarrow> \<not> is_open (in_socket s) \<and> \<not> is_open (out_socket s)"
    and cnt: "a = (if destroyed s then a0 else a0 + 1)"
    by (simp_all add: session_inv_def sock_inv_def)
  have 1: "os_closes (in_socket s) \<le> 1" "os_closes (out_socket s) \<le> 1"
    using socket_ok_closes(1)[OF si] socket_ok_closes(1)[OF so] by simp_all
  have 2: "os_closes (in_socket (close_sockets now s)) = 1"
    using socket_ok_closes(2)[OF si] by simp
  have 3: "connect_times s \<noteq> [] \<longrightarrow> os_closes (out_socket (close_sockets now s)) = 1"
    using socket_ok_closes(2)[OF so] by (simp add: attempted_def)
  have 4: "in_socket (close_sockets now' (close_sockets now s)) = in_socket (close_sockets now s)"
    "out_socket (close_sockets now' (close_sockets now s)) = out_socket (close_sockets now s)"
    by simp_all
  have 5: "entered_forwarding s \<longrightarrow> connect_times s \<noteq> []"
    using ent by (simp add: attempted_def)
  have 6: "os_closes (in_socket s) = 1
             \<and> (connect_times s \<noteq> [] \<longrightarrow> os_closes (out_socket s) = 1)
             \<and> (\<forall>now c. deliver now c (s, a) = None)"
    if d: "destroyed s"
  proof -
    from d shut have no: "\<not> is_open (in_socket s)" "\<not> is_open (out_socket s)" by simp_all
    from d life have "pending s = []" by simp
    then have "\<forall>now c. deliver now c (s, a) = None" by (simp add: deliver_dead)
    moreover have "os_closes (in_socket s) = 1"
      using socket_ok_closes(3)[OF si] no(1) by simp
    moreover have "connect_times s \<noteq> [] \<longrightarrow> os_closes (out_socket s) = 1"
      using socket_ok_closes(3)[OF so] no(2) by (simp add: attempted_def)
    ultimately show ?thesis by simp
  qed
  from 1 2 3 4 5 cnt 6 show ?thesis by blast
qed

theorem teardown_once_witness:
  "\<exists>t s a. run 0 (spawn 0 example_target 4 True 3 2 success 0) reset_events = Some (t, s, a)
      \<and> destroyed s \<and> connect_times s \<noteq> [] \<and> a = 0
      \<and> os_closes (in_socket s) = 1 \<and> os_closes (out_socket s) = 1
      \<and> length (filter (\<lambda>e. snd e = Close In_socket) (trace s)) = 2"
proof -
  have "map_option (\<lambda>r. (destroyed (fst (snd r)), connect_times (fst (snd r)),
                          length (filter (\<lambda>e. snd e = Close In_socket) (trace (fst (snd r))))))
          (run 0 (spawn 0 example_target 4 True 3 2 success 0) reset_events)
          = Some (True, [0], 2)"
    by (simp add: reset_events_def connect_times_def example_defs model_defs)
  then obtain t s a where r: "run 0 (spawn 0 example_target 4 True 3 2 success 0) reset_events = Some (t, s, a)"
    and d: "destroyed s" "connect_times s = [0]"
      "length (filter (\<lambda>e. snd e = Close In_socket) (trace s)) = 2"
    by auto
  from teardown_once[OF r, of 0 0] d r show ?thesis by simp
qed

section \<open>Connecting to a target that cannot be reached\<close>

lemma separated_snoc:
  "separated d (ts @ [t]) \<longleftrightarrow> separated d ts \<and> (ts = [] \<or> last ts + d \<le> t)"
  by (induction d ts rule: separated.induct) auto

lemma retry_inv_release:
  "retry_inv ra rd now (fst (release now' (s, a))) = retry_inv ra rd now s"
  "progress (fst (release now' (s, a))) = progress s"
  by (simp_all add: release_def retry_inv_def progress_def)

lemma handler_retry:
  assumes "retry_inv ra rd now s" and "now \<le> t1" and "refused c"
    and "handler t1 c s = Some s'"
  shows "retry_inv ra rd t1 s' \<and> progress s' = progress s + 1"
proof (cases c)
  case (Connected ec nd)
  with assms(3,4) have f: "ec \<noteq> success" and mem: "Connect_op \<in> set (pending s)"
    and s': "s' = on_connect t1 ec nd (completed Connect_op s)"
    by (auto split: if_splits)
  from assms(1) mem have p: "pending s = [Connect_op]"
    by (auto simp: retry_inv_def split: if_splits)
  with assms(1,2) f show ?thesis
    by (auto simp: retry_inv_def progress_def s' nat_add_distrib)
next
  case (Timer_fired ec)
  with assms(3,4) have f: "ec = success" and mem: "Wait_op \<in> set (pending s)"
    and due: "timer s \<le> t1"
    and s': "s' = on_wait t1 ec (completed Wait_op s)"
    by (auto split: if_splits)
  from assms(1) mem have p: "pending s = [Wait_op]"
    by (auto simp: retry_inv_def split: if_splits)
  with assms(1) have ne: "connect_times s \<noteq> []"
    by (auto simp: retry_inv_def)
  from p assms(1,2) due ne show ?thesis
    by (auto simp: retry_inv_def progress_def s' separated_snoc nat_add_distrib)
next
  case (Read_done d ec bytes)
  with assms(4) have "Read_op d \<in> set (pending s)" by (auto split: if_splits)
  with assms(1) show ?thesis by (auto simp: retry_inv_def split: if_splits)
next
  case (Write_done d ec n)
  with assms(4) obtain bytes where "write_of d (pending s) = Some bytes"
    by (auto split: option.splits)
  from write_of_mem[OF this] assms(1) show ?thesis
    by (auto simp: retry_inv_def split: if_splits)
qed

lemma deliver_retry:
  assumes "retry_inv ra rd now (fst sa)" and "now \<le> t1" and "refused c"
    and "deliver t1 c sa = Some sa'"
  shows "retry_inv ra rd t1 (fst sa') \<and> progress (fst sa') = progress (fst sa) + 1"
proof -
  from assms(4) obtain s1 where h: "handler t1 c (fst sa) = Some s1"
    and sa': "sa' = release t1 (s1, snd sa)"
    by (auto simp: deliver_def split: option.splits)
  from handler_retry[OF assms(1,2,3) h] show ?thesis
    by (simp add: sa' retry_inv_release)
qed

lemma run_retry:
  assumes "retry_inv ra rd now (fst sa)" and "target_unreachable evs"
    and "run now sa evs = Some (t, sa')"
  shows "retry_inv ra rd t (fst sa') \<and> progress (fst sa') = progress (fst sa) + int (length evs)"
  using assms
proof (induction evs arbitrary: now sa)
  case Nil
  then show ?case by simp
next
  case (Cons ev evs)
  obtain t1 c where ev: "ev = (t1, c)" by (cases ev)
  with Cons.prems(3) obtain sa1 where le: "now \<le> t1"
    and sa1: "deliver t1 c sa = Some sa1" "run t1 sa1 evs = Some (t, sa')"
    by (auto split: if_splits option.splits)
  from Cons.prems(2) ev have r: "refused c" "target_unreachable evs"
    by (simp_all add: target_unreachable_def)
  from deliver_retry[OF Cons.prems(1) le r(1) sa1(1)]
  have 1: "retry_inv ra rd t1 (fst sa1)" "progress (fst sa1) = progress (fst sa) + 1"
    by simp_all
  from Cons.IH[OF 1(1) r(2) sa1(2)] 1(2) show ?case by simp
qed

lemma spawn_retry:
  assumes "0 \<le> ra"
  shows "retry_inv ra rd now (fst (spawn now target bs nd ra rd ec a0))"
    and "progress (fst (spawn now target bs nd ra rd ec a0)) = 0"
proof -
  let ?s0 = "fst (Session now accepted_socket target bs nd ra rd ec a0)"
  have sp: "spawn now target bs nd ra rd ec a0 = release now (start now ?s0, a0 + 1)"
    by (simp add: spawn_def Let_def)
  have "retry_inv ra rd now (start now ?s0)"
    using assms by (simp add: retry_inv_def)
  then show "retry_inv ra rd now (fst (spawn now target bs nd ra rd ec a0))"
    unfolding sp retry_inv_release .
  have "progress (start now ?s0) = 0"
    by (simp add: progress_def)
  then show "progress (fst (spawn now target bs nd ra rd ec a0)) = 0"
    unfolding sp retry_inv_release .
qed

text \<open>
  C2: a session with \<open>retry_attempts = ra \<ge> 0\<close> whose connects all fail and whose waits
  all end by expiry. At every moment it has issued at most \<open>ra\<close> connects, any two
  consecutive ones at least \<open>retry_delay\<close> seconds apart, and it has not entered
  forwarding. It takes at most \<open>2 * ra\<close> completions; until then exactly one operation is
  outstanding and its completion can be delivered; after exactly \<open>2 * ra\<close> (\<open>ra\<close> failed
  connects, each followed by the wait) it is destroyed, having issued exactly \<open>ra\<close>
  connects, and the counter is back at its value before the session.
\<close>

theorem retry_bound:
  assumes "0 \<le> ra"
    and "run t0 (spawn t0 target bs nd ra rd ec a0) evs = Some (t, s, a)"
    and "target_unreachable evs"
  shows "length (connect_times s) \<le> nat ra
       \<and> separated rd (connect_times s)
       \<and> \<not> entered_forwarding s
       \<and> length evs \<le> 2 * nat ra
       \<and> (destroyed s \<longleftrightarrow> length evs = 2 * nat ra)
       \<and> (destroyed s \<longrightarrow> length (connect_times s) = nat ra \<and> a = a0)
       \<and> (\<not> destroyed s \<longrightarrow>
             (pending s = [Connect_op] \<or> pending s = [Wait_op])
             \<and> (\<exists>c. refused c \<and> deliver (max t (timer s)) c (s, a) \<noteq> None))"
proof -
  from run_retry[OF spawn_retry(1)[OF assms(1)] assms(3) assms(2)] spawn_retry(2)[OF assms(1)]
  have inv: "retry_inv ra rd t s" and pr: "progress s = int (length evs)"
    by simp_all
  from run_inv[OF spawn_inv assms(2)]
  have life: "destroyed s \<longleftrightarrow> pending s = []"
    and cnt: "a = (if destroyed s then a0 else a0 + 1)"
    by (simp_all add: session_inv_def)
  from inv have base: "separated rd (connect_times s)" "\<not> entered_forwarding s"
    "0 \<le> current_attempt s"
    by (simp_all add: retry_inv_def)
  consider (connect) "pending s = [Connect_op]" | (wait) "pending s = [Wait_op]"
    | (closed) "pending s = []"
    using inv by (auto simp: retry_inv_def split: if_splits)
  then show ?thesis
  proof cases
    case connect
    with inv have k: "current_attempt s < ra"
      "length (connect_times s) = nat (current_attempt s) + 1"
      by (simp_all add: retry_inv_def)
    from pr connect have n: "int (length evs) = 2 * current_attempt s"
      by (simp add: progress_def)
    have "deliver (max t (timer s)) (Connected connection_refused success) (s, a) \<noteq> None"
      using connect by (simp add: deliver_def)
    moreover have "refused (Connected connection_refused success)" by simp
    ultimately have next_one: "\<exists>c. refused c \<and> deliver (max t (timer s)) c (s, a) \<noteq> None"
      by blast
    from connect life have alive: "\<not> destroyed s" by simp
    have "length (connect_times s) \<le> nat ra" using k base(3) by linarith
    moreover have "length evs < 2 * nat ra" using k n base(3) by linarith
    ultimately show ?thesis using base alive connect next_one by simp
  next
    case wait
    with inv have k: "0 < current_attempt s" "current_attempt s \<le> ra"
      "length (connect_times s) = nat (current_attempt s)"
      by (simp_all add: retry_inv_def)
    from pr wait have n: "int (length evs) = 2 * current_attempt s - 1"
      by (simp add: progress_def)
    have "deliver (max t (timer s)) (Timer_fired success) (s, a) \<noteq> None"
      using wait by (simp add: deliver_def)
    moreover have "refused (Timer_fired success)" by simp
    ultimately have next_one: "\<exists>c. refused c \<and> deliver (max t (timer s)) c (s, a) \<noteq> None"
      by blast
    from wait life have alive: "\<not> destroyed s" by simp
    have "length (connect_times s) \<le> nat ra" using k by linarith
    moreover have "length evs < 2 * nat ra" using k n by linarith
    ultimately show ?thesis using base alive wait next_one by simp
  next
    case closed
    with inv have k: "current_attempt s = ra" "length (connect_times s) = nat ra"
      by (simp_all add: retry_inv_def)
    from pr closed have n: "int (length evs) = 2 * current_attempt s"
      by (simp add: progress_def)
    from closed life have dead: "destroyed s" by simp
    with cnt have "a = a0" by simp
    moreover have "length evs = 2 * nat ra" using k n assms(1) by linarith
    ultimately show ?thesis using base dead k by simp
  qed
qed

theorem retry_bound_witness:
  "target_unreachable refused_events
   \<and> (\<exists>t s a. run 0 (spawn 0 example_target 4 True 3 2 success 0) refused_events = Some (t, s, a)
         \<and> destroyed s \<and> connect_times s = [0, 3, 6] \<and> separated 2 (connect_times s)
         \<and> \<not> entered_forwarding s \<and> a = 0)"
proof -
  have u: "target_unreachable refused_events"
    by (simp add: target_unreachable_def refused_events_def)
  have "map_option (\<lambda>r. connect_times (fst (snd r)))
          (run 0 (spawn 0 example_target 4 True 3 2 success 0) refused_events) = Some [0, 3, 6]"
    by (simp add: refused_events_def connect_times_def example_defs model_defs)
  then obtain t s a where r: "run 0 (spawn 0 example_target 4 True 3 2 success 0) refused_events = Some (t, s, a)"
    and c: "connect_times s = [0, 3, 6]"
    by auto
  have n: "length refused_events = 2 * nat 3" by (simp add: refused_events_def)
  from retry_bound[OF _ r u] n c u r show ?thesis by simp
qed

section \<open>The health check\<close>

lemmas health_defs =
  main_health_check_def HealthChecker_dtor_def hc_start_def schedule_check_def hc_log_def
  HealthChecker_def hc_fire_def hc_on_wait_def heartbeats_def Let_def

lemma main_cancelled:
  assumes "main_health_check now cfg = Some h"
  shows "hc_wait h = Cancelled \<and> heartbeats h = 0"
  using assms by (auto simp: health_defs split: if_splits)

lemma hc_run_idle: "hc_wait h = No_wait \<Longrightarrow> hc_run h ts = h"
  by (induction ts) (simp_all add: hc_fire_def)

lemma hc_run_cancelled:
  assumes "hc_wait h = Cancelled"
  shows "hc_run h ts = (if ts = [] then h else h\<lparr>hc_wait := No_wait\<rparr>)"
proof (cases ts)
  case Nil
  then show ?thesis by simp
next
  case (Cons t ts')
  have "hc_fire t h = Some (h\<lparr>hc_wait := No_wait\<rparr>)"
    using assms by (simp add: hc_fire_def hc_on_wait_def)
  with Cons show ?thesis by (simp add: hc_run_idle)
qed

lemma hc_fire_beats:
  assumes "hc_wait h = Waiting" and "hc_timer h \<le> now"
  shows "\<exists>h'. hc_fire now h = Some h' \<and> heartbeats h' = heartbeats h + 1
           \<and> hc_wait h' = Waiting \<and> hc_timer h' = now + interval h \<and> interval h' = interval h"
  using assms by (simp add: health_defs)

lemma kept_alive_beats: "heartbeats (hc_run (hc_start 0 (HealthChecker 10)) [10, 20, 30]) = 3"
  by (simp add: health_defs)

text \<open>
  C8, on the code: \<^verbatim>\<open>main\<close> declares the \<^verbatim>\<open>HealthChecker\<close> inside the block of
  \<^verbatim>\<open>if (health_check_enabled)\<close>, so it is destroyed, and its timer's wait cancelled,
  before the reactor runs. Whenever and however often the reactor runs afterwards, the
  only handler it has for the checker is the cancelled one: no heartbeat is ever logged
  and nothing is rescheduled. (\<open>hc_fire_beats\<close> and \<open>kept_alive_beats\<close> above are the
  same scheduler when its object stays alive: one heartbeat per expiry.)
\<close>

theorem health_check_silent:
  assumes "main_health_check now cfg = Some h"
  shows "heartbeats (hc_run h ts) = 0 \<and> (ts \<noteq> [] \<longrightarrow> hc_wait (hc_run h ts) = No_wait)"
proof -
  from main_cancelled[OF assms] have c: "hc_wait h = Cancelled" and z: "heartbeats h = 0"
    by simp_all
  from z show ?thesis
    by (simp add: hc_run_cancelled[OF c] heartbeats_def)
qed

theorem health_check_silent_witness:
  "health_check_enabled range_config \<and> health_check_interval range_config = 10
   \<and> (\<exists>h. main_health_check 0 range_config = Some h
         \<and> heartbeats (hc_run h [10, 20, 30]) = 0
         \<and> hc_wait (hc_run h [10, 20, 30]) = No_wait)"
proof -
  have e: "health_check_enabled range_config" "health_check_interval range_config = 10"
    by (simp_all add: range_config_def)
  then obtain h where h: "main_health_check 0 range_config = Some h"
    by (simp add: main_health_check_def)
  from health_check_silent[OF h, of "[10, 20, 30]"] e h show ?thesis by simp
qed
end
